theory Spec2Isabelle
  imports Complex_Main "HOL-Library.Product_Lexorder"
begin

section \<open>Grids and cell states (board.py)\<close>

text \<open>
  A grid is Python's \<open>List[List[int]]\<close>; coordinates are Python ints, so a neighbour
  \<open>r - 1\<close> of row 0 is the integer \<open>-1\<close> and is rejected by the bounds checks of the
  source, never wrapped. Every grid read of the source is guarded by such a check
  against \<open>self.size\<close>, so \<open>cell\<close> is only ever used at non-negative indices.
\<close>

type_synonym grid = "int list list"

type_synonym coord = "int \<times> int"

definition EMPTY :: int where "EMPTY = 0"

definition SHIP :: int where "SHIP = 1"

definition HIT :: int where "HIT = 2"

definition MISS :: int where "MISS = 3"

definition UNKNOWN :: int where "UNKNOWN = - 1"

lemmas cell_consts = EMPTY_def SHIP_def HIT_def MISS_def UNKNOWN_def

definition cell :: "grid \<Rightarrow> int \<Rightarrow> int \<Rightarrow> int" where
  "cell g r c = g ! nat r ! nat c"

definition set_cell :: "grid \<Rightarrow> int \<Rightarrow> int \<Rightarrow> int \<Rightarrow> grid" where
  "set_cell g r c v = g[nat r := (g ! nat r)[nat c := v]]"

definition in_grid :: "int \<Rightarrow> int \<Rightarrow> int \<Rightarrow> bool" where
  "in_grid n r c \<longleftrightarrow> 0 \<le> r \<and> r < n \<and> 0 \<le> c \<and> c < n"

text \<open>\<open>range(n)\<close> as a list of Python ints; empty when \<open>n \<le> 0\<close>.\<close>

definition py_range :: "int \<Rightarrow> int list" where
  "py_range n = [0..n - 1]"

text \<open>The row-major double loop \<open>for r in range(n): for c in range(n)\<close>.\<close>

definition grid_coords :: "int \<Rightarrow> coord list" where
  "grid_coords n = concat (map (\<lambda>r. map (\<lambda>c. (r, c)) (py_range n)) (py_range n))"

text \<open>A grid with exactly \<open>n\<close> rows of \<open>n\<close> cells, as every constructor of the source builds.\<close>

definition square_grid :: "int \<Rightarrow> grid \<Rightarrow> bool" where
  "square_grid n g \<longleftrightarrow> length g = nat n \<and> list_all (\<lambda>row. length row = nat n) g"

section \<open>Board and ships (board.py)\<close>

record ship =
  ship_length :: int
  cells :: "coord list"
  hits :: int

record board =
  board_size :: int
  board_grid :: grid
  ships :: "ship list"
  total_ship_cells :: int

definition sunk :: "ship \<Rightarrow> bool" where
  "sunk s \<longleftrightarrow> hits s \<ge> ship_length s"

definition new_board :: "int \<Rightarrow> board" where
  "new_board n = \<lparr> board_size = n,
                   board_grid = replicate (nat n) (replicate (nat n) EMPTY),
                   ships = [], total_ship_cells = 0 \<rparr>"

definition in_bounds :: "board \<Rightarrow> int \<Rightarrow> int \<Rightarrow> bool" where
  "in_bounds b r c \<longleftrightarrow> 0 \<le> r \<and> r < board_size b \<and> 0 \<le> c \<and> c < board_size b"

text \<open>\<open>_placement_cells\<close> of ai.py; board.py computes the same cells inline.\<close>

definition placement_cells :: "int \<Rightarrow> int \<Rightarrow> int \<Rightarrow> bool \<Rightarrow> coord list" where
  "placement_cells r c len horizontal =
     map (\<lambda>i. (r + (if horizontal then 0 else i), c + (if horizontal then i else 0)))
         (py_range len)"

definition can_place :: "board \<Rightarrow> int \<Rightarrow> int \<Rightarrow> int \<Rightarrow> bool \<Rightarrow> bool" where
  "can_place b r c len horizontal =
     list_all (\<lambda>(rr, cc). in_bounds b rr cc \<and> cell (board_grid b) rr cc = EMPTY)
              (placement_cells r c len horizontal)"

definition place_ship :: "board \<Rightarrow> int \<Rightarrow> int \<Rightarrow> int \<Rightarrow> bool \<Rightarrow> bool \<times> board" where
  "place_ship b r c len horizontal =
     (if \<not> can_place b r c len horizontal then (False, b)
      else let cs = placement_cells r c len horizontal in
        (True, b\<lparr> board_grid := fold (\<lambda>(rr, cc) g. set_cell g rr cc SHIP) cs (board_grid b),
                  ships := ships b @ [\<lparr> ship_length = len, cells = cs, hits = 0 \<rparr>],
                  total_ship_cells := total_ship_cells b + len \<rparr>))"

definition all_ships_sunk :: "board \<Rightarrow> bool" where
  "all_ships_sunk b \<longleftrightarrow> list_all sunk (ships b) \<and> length (ships b) > 0"

text \<open>
  The loop \<open>for ship in self.ships: if (r, c) in ship.cells: ...; break\<close>: the first
  ship owning the cell gets one more hit, and its length is reported when it is
  then sunk.
\<close>

fun hit_ship :: "coord \<Rightarrow> ship list \<Rightarrow> ship list \<times> int option" where
  "hit_ship p [] = ([], None)"
| "hit_ship p (s # ss) =
     (if p \<in> set (cells s) then
        (let s' = s\<lparr> hits := hits s + 1 \<rparr>
         in (s' # ss, if sunk s' then Some (ship_length s') else None))
      else (let (ss', res) = hit_ship p ss in (s # ss', res)))"

text \<open>\<open>receive_shot\<close> returns \<open>(hit, sunk_length, game_over)\<close> and the board it leaves.\<close>

type_synonym shot_report = "bool \<times> int option \<times> bool"

definition receive_shot :: "board \<Rightarrow> int \<Rightarrow> int \<Rightarrow> shot_report \<times> board" where
  "receive_shot b r c =
     (if \<not> in_bounds b r c then ((False, None, all_ships_sunk b), b)
      else let cl = cell (board_grid b) r c in
        if cl = HIT \<or> cl = MISS then ((False, None, all_ships_sunk b), b)
        else if cl = SHIP then
          (let b1 = b\<lparr> board_grid := set_cell (board_grid b) r c HIT \<rparr>;
               (ss, sl) = hit_ship (r, c) (ships b1);
               b2 = b1\<lparr> ships := ss \<rparr>
           in ((True, sl, all_ships_sunk b2), b2))
        else
          (let b1 = b\<lparr> board_grid := set_cell (board_grid b) r c MISS \<rparr>
           in ((False, None, all_ships_sunk b1), b1)))"

definition is_valid_shot :: "board \<Rightarrow> int \<Rightarrow> int \<Rightarrow> bool" where
  "is_valid_shot b r c \<longleftrightarrow>
     in_bounds b r c \<and> cell (board_grid b) r c \<noteq> HIT \<and> cell (board_grid b) r c \<noteq> MISS"

definition get_ai_knowledge :: "board \<Rightarrow> grid" where
  "get_ai_knowledge b =
     map (\<lambda>r. map (\<lambda>c. if cell (board_grid b) r c = HIT then HIT
                        else if cell (board_grid b) r c = MISS then MISS
                        else - 1)
                  (py_range (board_size b)))
         (py_range (board_size b))"

text \<open>A sequence of shots, keeping for each call the board before, the shot, the report
  and the board after.\<close>

fun run_shots :: "board \<Rightarrow> coord list \<Rightarrow> (board \<times> coord \<times> shot_report \<times> board) list" where
  "run_shots b [] = []"
| "run_shots b (p # ps) =
     (let (res, b') = receive_shot b (fst p) (snd p)
      in (b, p, res, b') # run_shots b' ps)"

lemma py_range_set: "set (py_range n) = {0..n - 1}"
  by (simp add: py_range_def)

lemma grid_coords_mem: "(r, c) \<in> set (grid_coords n) \<longleftrightarrow> in_grid n r c"
  by (force simp: grid_coords_def in_grid_def py_range_set)

section \<open>Targeting engine (ai.py)\<close>

datatype orient = Horizontal | Vertical

type_synonym cluster = "coord list \<times> orient option"

datatype py_error = IndexError

definition GRID_SIZE :: int where "GRID_SIZE = 10"

definition STANDARD_SHIPS :: "int list" where "STANDARD_SHIPS = [5, 4, 3, 3, 2]"

record ai =
  ai_size :: int
  remaining_ships :: "int list"

text \<open>Python's \<open>x or y\<close> on an optional list: \<open>None\<close> and \<open>[]\<close> are both falsy.\<close>

definition py_or :: "'a list option \<Rightarrow> 'a list \<Rightarrow> 'a list" where
  "py_or x y = (case x of None \<Rightarrow> y | Some xs \<Rightarrow> if xs = [] then y else xs)"

definition new_ai :: "int \<Rightarrow> int list option \<Rightarrow> ai" where
  "new_ai n ships_opt = \<lparr> ai_size = n, remaining_ships = py_or ships_opt STANDARD_SHIPS \<rparr>"

definition notify_sunk :: "ai \<Rightarrow> int \<Rightarrow> ai" where
  "notify_sunk a len =
     (if len \<in> set (remaining_ships a)
      then a\<lparr> remaining_ships := remove1 len (remaining_ships a) \<rparr> else a)"

definition valid_placement_on_knowledge :: "int \<Rightarrow> grid \<Rightarrow> int \<Rightarrow> int \<Rightarrow> int \<Rightarrow> bool \<Rightarrow> bool" where
  "valid_placement_on_knowledge n k r c len horizontal =
     list_all (\<lambda>i. let rr = r + (if horizontal then 0 else i);
                        cc = c + (if horizontal then i else 0)
                    in \<not> (rr < 0 \<or> rr \<ge> n \<or> cc < 0 \<or> cc \<ge> n) \<and> cell k rr cc \<noteq> MISS)
              (py_range len)"

text \<open>
  \<open>_hit_clusters\<close>, the flood fill over the \<open>HIT\<close> cells. The boolean array \<open>visited\<close> is kept
  as the list of the cells marked so far, the Python list \<open>stack\<close> with its top at the
  head, and the set \<open>comp\<close> as the list of its members in the order they were added.
  Each round of the \<open>while stack\<close> loop pops one cell and pushes only cells it marks, so
  \<open>dfs_todo\<close>, the number of unmarked \<open>HIT\<close> cells plus the height of the stack, falls.
\<close>

definition nbrs4 :: "coord \<Rightarrow> coord list" where
  "nbrs4 p = map (\<lambda>(dr, dc). (fst p + dr, snd p + dc)) [(1, 0), (- 1, 0), (0, 1), (0, - 1)]"

definition push_nbr :: "int \<Rightarrow> grid \<Rightarrow> coord \<Rightarrow> coord list \<times> coord list \<Rightarrow> coord list \<times> coord list" where
  "push_nbr n k p = (\<lambda>(visited, stack).
     if in_grid n (fst p) (snd p) \<and> p \<notin> set visited \<and> cell k (fst p) (snd p) = HIT
     then (p # visited, p # stack) else (visited, stack))"

definition hit_cells :: "int \<Rightarrow> grid \<Rightarrow> coord set" where
  "hit_cells n k = {p \<in> set (grid_coords n). cell k (fst p) (snd p) = HIT}"

definition dfs_todo :: "int \<Rightarrow> grid \<Rightarrow> coord list \<Rightarrow> coord list \<Rightarrow> nat" where
  "dfs_todo n k visited stack = card (hit_cells n k - set visited) + length stack"

lemma finite_hit_cells: "finite (hit_cells n k)"
  by (simp add: hit_cells_def)

lemma push_nbr_todo:
  "dfs_todo n k (fst (push_nbr n k p st)) (snd (push_nbr n k p st)) = dfs_todo n k (fst st) (snd st)"
proof (cases st)
  case (Pair visited stack)
  show ?thesis
  proof (cases "in_grid n (fst p) (snd p) \<and> p \<notin> set visited \<and> cell k (fst p) (snd p) = HIT")
    case True
    then have "p \<in> hit_cells n k - set visited"
      using grid_coords_mem[of "fst p" "snd p" n] by (simp add: hit_cells_def)
    moreover have "hit_cells n k - set (p # visited) = (hit_cells n k - set visited) - {p}"
      by auto
    ultimately have "card (hit_cells n k - set (p # visited)) = card (hit_cells n k - set visited) - 1"
      "card (hit_cells n k - set visited) > 0"
      using finite_hit_cells[of n k] by (auto simp: card_gt_0_iff)
    then show ?thesis using True Pair by (simp add: push_nbr_def dfs_todo_def)
  next
    case False
    then show ?thesis using Pair by (auto simp: push_nbr_def)
  qed
qed

lemma fold_push_nbr_todo:
  "dfs_todo n k (fst (fold (push_nbr n k) ps st)) (snd (fold (push_nbr n k) ps st)) =
   dfs_todo n k (fst st) (snd st)"
  by (induction ps arbitrary: st) (simp_all add: push_nbr_todo)

function dfs :: "int \<Rightarrow> grid \<Rightarrow> coord list \<Rightarrow> coord list \<Rightarrow> coord list \<Rightarrow> coord list \<times> coord list" where
  "dfs n k visited [] cmp = (visited, cmp)"
| "dfs n k visited (p # stack) cmp =
     dfs n k (fst (fold (push_nbr n k) (nbrs4 p) (visited, stack)))
             (snd (fold (push_nbr n k) (nbrs4 p) (visited, stack)))
             (if p \<in> set cmp then cmp else cmp @ [p])"
  by pat_completeness auto
termination
proof (relation "measure (\<lambda>(n, k, visited, stack, cmp). dfs_todo n k visited stack)")
  show "wf (measure (\<lambda>(n, k, visited, stack, cmp). dfs_todo n k visited stack))" by simp
next
  fix n k visited p stack cmp
  show "((n, k, fst (fold (push_nbr n k) (nbrs4 p) (visited, stack)),
          snd (fold (push_nbr n k) (nbrs4 p) (visited, stack)),
          if p \<in> set cmp then cmp else cmp @ [p]),
         (n, k, visited, p # stack, cmp))
        \<in> measure (\<lambda>(n, k, visited, stack, cmp). dfs_todo n k visited stack)"
    using fold_push_nbr_todo[of n k "nbrs4 p" "(visited, stack)"]
    by (simp add: dfs_todo_def)
qed

definition cluster_orient :: "coord list \<Rightarrow> orient option" where
  "cluster_orient cmp =
     (if card (set cmp) \<ge> 2 then
        (if card (fst ` set cmp) = 1 then Some Horizontal
         else if card (snd ` set cmp) = 1 then Some Vertical
         else None)
      else None)"

definition visit_cell :: "int \<Rightarrow> grid \<Rightarrow> coord \<Rightarrow> coord list \<times> cluster list \<Rightarrow> coord list \<times> cluster list" where
  "visit_cell n k p = (\<lambda>(visited, clusters).
     if cell k (fst p) (snd p) = HIT \<and> p \<notin> set visited then
       (let res = dfs n k (p # visited) [p] []
        in (fst res, clusters @ [(snd res, cluster_orient (snd res))]))
     else (visited, clusters))"

definition hit_clusters :: "int \<Rightarrow> grid \<Rightarrow> cluster list" where
  "hit_clusters n k = snd (fold (visit_cell n k) (grid_coords n) ([], []))"

text \<open>
  \<open>_placement_consistent_with_clusters\<close>: the loop over the clusters with its early
  returns; \<open>intersected\<close> counts the clusters met so far.
\<close>

fun consistent_loop :: "coord list \<Rightarrow> cluster list \<Rightarrow> int \<Rightarrow> bool \<Rightarrow> int \<Rightarrow> bool" where
  "consistent_loop cs [] len horizontal intersected = True"
| "consistent_loop cs ((cmp, orient) # rest) len horizontal intersected =
     (if \<not> (\<exists>x \<in> set cs. x \<in> set cmp) then consistent_loop cs rest len horizontal intersected
      else if int (card (set cmp)) > len then False
      else if \<not> set cmp \<subseteq> set cs then False
      else if orient = Some Horizontal \<and> \<not> horizontal then False
      else if orient = Some Vertical \<and> horizontal then False
      else if intersected + 1 > 1 then False
      else consistent_loop cs rest len horizontal (intersected + 1))"

definition placement_consistent_with_clusters ::
    "coord list \<Rightarrow> cluster list \<Rightarrow> int \<Rightarrow> bool \<Rightarrow> bool" where
  "placement_consistent_with_clusters cs clusters len horizontal =
     consistent_loop cs clusters len horizontal 0"

definition add_cell :: "grid \<Rightarrow> int \<Rightarrow> int \<Rightarrow> int \<Rightarrow> grid" where
  "add_cell h r c v = set_cell h r c (cell h r c + v)"

text \<open>The body of the two innermost loops of \<open>heatmap\<close> for one origin \<open>(r, c)\<close>.\<close>

definition place_step ::
    "int \<Rightarrow> grid \<Rightarrow> cluster list \<Rightarrow> int \<Rightarrow> bool \<Rightarrow> coord \<Rightarrow> grid \<Rightarrow> grid" where
  "place_step n k clusters len horizontal p heat =
     (let r = fst p; c = snd p in
      if valid_placement_on_knowledge n k r c len horizontal then
        (let cs = placement_cells r c len horizontal in
         if placement_consistent_with_clusters cs clusters len horizontal then
           fold (\<lambda>i h. add_cell h (r + (if horizontal then 0 else i))
                                   (c + (if horizontal then i else 0)) 1)
                (py_range len) heat
         else heat)
      else heat)"

text \<open>
  The origins the source tries: \<open>for r in range(size): for c in range(size - length + 1)\<close>
  for a horizontal ship, the two ranges exchanged for a vertical one.
\<close>

definition origins :: "int \<Rightarrow> int \<Rightarrow> bool \<Rightarrow> coord list" where
  "origins n len horizontal =
     (if horizontal
      then concat (map (\<lambda>r. map (\<lambda>c. (r, c)) (py_range (n - len + 1))) (py_range n))
      else concat (map (\<lambda>r. map (\<lambda>c. (r, c)) (py_range n)) (py_range (n - len + 1))))"

definition ship_step :: "int \<Rightarrow> grid \<Rightarrow> cluster list \<Rightarrow> int \<Rightarrow> grid \<Rightarrow> grid" where
  "ship_step n k clusters len heat =
     fold (place_step n k clusters len False) (origins n len False)
       (fold (place_step n k clusters len True) (origins n len True) heat)"

definition zero_grid :: "int \<Rightarrow> grid" where
  "zero_grid n = replicate (nat n) (replicate (nat n) 0)"

definition base_heat :: "int \<Rightarrow> grid \<Rightarrow> int list \<Rightarrow> grid" where
  "base_heat n k fleet = fold (ship_step n k (hit_clusters n k)) fleet (zero_grid n)"

definition boost_step :: "int \<Rightarrow> grid \<Rightarrow> coord \<Rightarrow> grid \<Rightarrow> grid" where
  "boost_step n k p heat =
     (if cell k (fst p) (snd p) = HIT then
        fold (\<lambda>q h. if in_grid n (fst q) (snd q) \<and> cell k (fst q) (snd q) = - 1
                     then add_cell h (fst q) (snd q) 3 else h)
             (nbrs4 p) heat
      else heat)"

definition boosted_heat :: "int \<Rightarrow> grid \<Rightarrow> int list \<Rightarrow> grid" where
  "boosted_heat n k fleet = fold (boost_step n k) (grid_coords n) (base_heat n k fleet)"

text \<open>
  \<open>int(heat[r][c] * 0.25)\<close>: the product with the float \<open>0.25\<close> is exact for every count
  a float holds exactly (below \<open>2^53\<close>), and \<open>int\<close> truncates toward zero.
\<close>

definition quarter :: "int \<Rightarrow> int" where
  "quarter h = (if h \<ge> 0 then h div 4 else - ((- h) div 4))"

definition any_hit :: "int \<Rightarrow> grid \<Rightarrow> bool" where
  "any_hit n k = list_ex (\<lambda>p. cell k (fst p) (snd p) = HIT) (grid_coords n)"

definition prune_step :: "coord \<Rightarrow> grid \<Rightarrow> grid" where
  "prune_step p heat =
     (if (fst p + snd p) mod 2 = 1 then set_cell heat (fst p) (snd p) (quarter (cell heat (fst p) (snd p)))
      else heat)"

definition heatmap :: "ai \<Rightarrow> grid \<Rightarrow> int list option \<Rightarrow> grid" where
  "heatmap a k remaining =
     (let n = ai_size a;
          fleet = py_or remaining (remaining_ships a);
          heat = boosted_heat n k fleet
      in if \<not> any_hit n k \<and> fleet \<noteq> [] then
           (let min_len = Min (set fleet) in
            if min_len \<ge> 2 then fold prune_step (grid_coords n) heat else heat)
         else heat)"

text \<open>Python's slice \<open>xs[:k]\<close>; a negative \<open>k\<close> counts from the end.\<close>

definition py_take :: "int \<Rightarrow> 'a list \<Rightarrow> 'a list" where
  "py_take k xs = (if k \<ge> 0 then take (nat k) xs else take (length xs - nat (- k)) xs)"

text \<open>
  \<open>cells.sort(reverse=True)\<close> on the triples \<open>(score, r, c)\<close>, compared lexicographically;
  the triples are pairwise different, so the stable descending sort is the reversed
  ascending one.
\<close>

definition ranked_unknown :: "int \<Rightarrow> grid \<Rightarrow> grid \<Rightarrow> (int \<times> int \<times> int) list" where
  "ranked_unknown n heat k =
     rev (sort (map (\<lambda>p. (cell heat (fst p) (snd p), fst p, snd p))
                    (filter (\<lambda>p. cell k (fst p) (snd p) = - 1) (grid_coords n))))"

definition top_candidates :: "int \<Rightarrow> grid \<Rightarrow> grid \<Rightarrow> int \<Rightarrow> coord list" where
  "top_candidates n heat k kk =
     (let top = py_take kk (ranked_unknown n heat k);
          positive = map snd (filter (\<lambda>t. fst t > 0) top)
      in if positive \<noteq> [] then positive else map snd top)"

definition emit :: "coord \<Rightarrow> coord list \<times> coord list \<Rightarrow> coord list \<times> coord list" where
  "emit p = (\<lambda>(cand, seen). if p \<notin> set seen then (cand @ [p], p # seen) else (cand, seen))"

text \<open>
  One cluster of \<open>_target_candidates\<close>. Each \<open>while ...: ...; break\<close> of the source runs its
  body at most once. For an oriented cluster all cells share the row (column), so
  \<open>next(iter({r for r, _ in comp}))\<close> is the row of any cell. For an unoriented cluster the
  source iterates the Python set \<open>comp\<close>, and the order in which a set yields its members
  is not fixed by the language: it is the parameter \<open>it\<close> of the model, which turns the
  members, in the order they were added, into the order of the iteration.
\<close>

definition cluster_step ::
    "(coord list \<Rightarrow> coord list) \<Rightarrow> int \<Rightarrow> grid \<Rightarrow> cluster \<Rightarrow> coord list \<times> coord list \<Rightarrow>
     coord list \<times> coord list" where
  "cluster_step it n k cl st =
     (let cmp = fst cl; orient = snd cl in
      if cmp = [] then st
      else case orient of
        None \<Rightarrow>
          fold (\<lambda>p st. fold (\<lambda>q st. if in_grid n (fst q) (snd q) \<and> cell k (fst q) (snd q) = - 1
                                      then emit q st else st) (nbrs4 p) st) (it cmp) st
      | Some Horizontal \<Rightarrow>
          (let rows = fst (hd cmp);
               min_c = Min (snd ` set cmp);
               max_c = Max (snd ` set cmp);
               st1 = (if min_c - 1 \<ge> 0 \<and> cell k rows (min_c - 1) = - 1
                      then emit (rows, min_c - 1) st else st)
           in if max_c + 1 < n \<and> cell k rows (max_c + 1) = - 1
              then emit (rows, max_c + 1) st1 else st1)
      | Some Vertical \<Rightarrow>
          (let cols = snd (hd cmp);
               min_r = Min (fst ` set cmp);
               max_r = Max (fst ` set cmp);
               st1 = (if min_r - 1 \<ge> 0 \<and> cell k (min_r - 1) cols = - 1
                      then emit (min_r - 1, cols) st else st)
           in if max_r + 1 < n \<and> cell k (max_r + 1) cols = - 1
              then emit (max_r + 1, cols) st1 else st1))"

definition target_candidates :: "(coord list \<Rightarrow> coord list) \<Rightarrow> int \<Rightarrow> grid \<Rightarrow> coord list" where
  "target_candidates it n k = fst (fold (cluster_step it n k) (hit_clusters n k) ([], []))"

text \<open>Iterating a set yields each of its members once.\<close>

definition set_iteration :: "(coord list \<Rightarrow> coord list) \<Rightarrow> bool" where
  "set_iteration it \<longleftrightarrow> (\<forall>xs. distinct xs \<longrightarrow> distinct (it xs) \<and> set (it xs) = set xs)"

definition grid_total :: "grid \<Rightarrow> int" where
  "grid_total h = sum_list (map sum_list h)"

text \<open>
  The quotient \<open>best / total\<close> of two Python ints is taken as the exact rational; the
  float the source returns is its correctly rounded value.
\<close>

definition best_unknown :: "int \<Rightarrow> grid \<Rightarrow> grid \<Rightarrow> int" where
  "best_unknown n pk heat_p =
     fold (\<lambda>p best. if cell pk (fst p) (snd p) = - 1 \<and> cell heat_p (fst p) (snd p) > best
                     then cell heat_p (fst p) (snd p) else best)
          (grid_coords n) 0"

definition best_counter_gain :: "ai \<Rightarrow> grid \<Rightarrow> int list \<Rightarrow> rat" where
  "best_counter_gain a pk ai_ships =
     (let heat_p = heatmap a pk (Some ai_ships);
          total = grid_total heat_p
      in if total \<le> 0 then 0
         else (let best = best_unknown (ai_size a) pk heat_p
               in if best \<le> 0 then 0 else of_int best / of_int total))"

text \<open>
  A grid from which every \<open>knowledge[r][c]\<close> with \<open>r, c\<close> in \<open>range(n)\<close> can be read.
  \<open>_hit_clusters\<close> reads every one of these cells, and every other read of a knowledge
  grid in ai.py is at such a cell, so a call raises \<open>IndexError\<close> exactly when the grid
  lacks one of them.
\<close>

definition grid_covers :: "int \<Rightarrow> grid \<Rightarrow> bool" where
  "grid_covers n g \<longleftrightarrow>
     n \<le> int (length g) \<and> list_all (\<lambda>row. n \<le> int (length row)) (take (nat n) g)"

text \<open>
  The scoring loop of \<open>choose_shot\<close>: it starts from \<open>best_score = -1e9\<close> and the first
  candidate, and replaces both whenever a score is strictly greater. The scores are
  Python floats; they are taken here as the exact rationals they round.
\<close>

definition pick_best :: "(coord \<Rightarrow> rat) \<Rightarrow> coord list \<Rightarrow> rat \<times> coord" where
  "pick_best score candidates =
     fold (\<lambda>p (best_score, best_move).
             if score p > best_score then (score p, p) else (best_score, best_move))
          candidates (- 1000000000, hd candidates)"

definition choose_shot ::
    "(coord list \<Rightarrow> coord list) \<Rightarrow> ai \<Rightarrow> grid \<Rightarrow> grid \<Rightarrow> int list option \<Rightarrow> py_error + coord" where
  "choose_shot it a pk ps ai_remaining =
     (let n = ai_size a in
      if \<not> grid_covers n pk then Inl IndexError
      else
        (let heat = heatmap a pk (Some (remaining_ships a));
             target_cands = target_candidates it n pk;
             candidates = (if target_cands \<noteq> [] then target_cands
                           else top_candidates n heat pk 8)
         in if candidates = [] then
              (case find (\<lambda>p. cell pk (fst p) (snd p) = - 1) (grid_coords n) of
                 Some p \<Rightarrow> Inr p
               | None \<Rightarrow> Inr (0, 0))
            else if \<not> grid_covers n ps then Inl IndexError
            else
              (let opp_gain = best_counter_gain a ps (py_or ai_remaining STANDARD_SHIPS);
                   total_heat = grid_total heat;
                   score = (\<lambda>p. (if total_heat \<le> 0 then 0
                                   else of_int (cell heat (fst p) (snd p)) / of_int total_heat)
                                  - opp_gain)
               in Inr (snd (pick_best score candidates)))))"

section \<open>Predicates and example inputs of the statements\<close>

text \<open>
  What \<open>Board()\<close>, \<open>place_ship\<close> and \<open>receive_shot\<close> maintain: the grid is square, every
  ship has as many cells as its length (none when the length is not positive), its
  cells are in bounds and hold \<open>SHIP\<close> or \<open>HIT\<close>, its hit count is the number of its cells
  that are \<open>HIT\<close>, and no cell belongs to two ships or twice to one.
\<close>

definition ship_ok :: "grid \<Rightarrow> int \<Rightarrow> ship \<Rightarrow> bool" where
  "ship_ok g n s \<longleftrightarrow>
     int (length (cells s)) = max 0 (ship_length s) \<and>
     list_all (\<lambda>(r, c). in_grid n r c \<and> (cell g r c = SHIP \<or> cell g r c = HIT)) (cells s) \<and>
     hits s = int (length (filter (\<lambda>(r, c). cell g r c = HIT) (cells s)))"

definition board_inv :: "board \<Rightarrow> bool" where
  "board_inv b \<longleftrightarrow>
     square_grid (board_size b) (board_grid b) \<and>
     list_all (ship_ok (board_grid b) (board_size b)) (ships b) \<and>
     distinct (concat (map cells (ships b)))"

definition sunk_report_for :: "nat \<Rightarrow> board \<times> coord \<times> shot_report \<times> board \<Rightarrow> bool" where
  "sunk_report_for i = (\<lambda>(b0, p, res, b1).
     p \<in> set (cells (ships b0 ! i)) \<and> fst (snd res) = Some (ship_length (ships b0 ! i)))"

definition raises_to_sunk :: "nat \<Rightarrow> board \<times> coord \<times> shot_report \<times> board \<Rightarrow> bool" where
  "raises_to_sunk i = (\<lambda>(b0, p, res, b1).
     hits (ships b0 ! i) = ship_length (ships b0 ! i) - 1 \<and>
     hits (ships b1 ! i) = ship_length (ships b1 ! i))"

definition final_board :: "board \<Rightarrow> coord list \<Rightarrow> board" where
  "final_board b ps = fold (\<lambda>p b. snd (receive_shot b (fst p) (snd p))) ps b"

definition demo_board :: board where
  "demo_board = \<lparr> board_size = 2, board_grid = [[HIT, SHIP], [MISS, EMPTY]],
      ships = [\<lparr> ship_length = 2, cells = [(0, 0), (0, 1)], hits = 1 \<rparr>],
      total_ship_cells = 2 \<rparr>"

definition demo_board2 :: board where
  "demo_board2 = \<lparr> board_size = 2, board_grid = [[HIT, EMPTY], [MISS, SHIP]],
      ships = [\<lparr> ship_length = 2, cells = [(0, 0), (1, 1)], hits = 1 \<rparr>],
      total_ship_cells = 2 \<rparr>"

definition unknown_cells :: "int \<Rightarrow> grid \<Rightarrow> coord list" where
  "unknown_cells n k = filter (\<lambda>p. cell k (fst p) (snd p) = - 1) (grid_coords n)"

definition heat_c7 :: grid where "heat_c7 = [[1, 0], [0, 0]]"

definition know_c7 :: grid where "know_c7 = [[- 1, - 1], [- 1, - 1]]"

definition ai_c10 :: ai where "ai_c10 = \<lparr> ai_size = 2, remaining_ships = [2] \<rparr>"

definition hit_at :: "int \<Rightarrow> grid \<Rightarrow> coord \<Rightarrow> bool" where
  "hit_at n k p \<longleftrightarrow> in_grid n (fst p) (snd p) \<and> cell k (fst p) (snd p) = HIT"

text \<open>
  A hit-cluster is a maximal 4-connected set of \<open>HIT\<close> cells of the knowledge grid: the
  cells that can be reached from one \<open>HIT\<close> cell through orthogonally adjacent \<open>HIT\<close> cells.
\<close>

definition hit_adj :: "int \<Rightarrow> grid \<Rightarrow> (coord \<times> coord) set" where
  "hit_adj n k = {(p, q). hit_at n k p \<and> hit_at n k q \<and> q \<in> set (nbrs4 p)}"

definition component :: "int \<Rightarrow> grid \<Rightarrow> coord \<Rightarrow> coord set" where
  "component n k p = {q. (p, q) \<in> (hit_adj n k)\<^sup>*}"

definition hit_cluster_sets :: "int \<Rightarrow> grid \<Rightarrow> coord set set" where
  "hit_cluster_sets n k = component n k ` {p. hit_at n k p}"

text \<open>
  The orientation of a cluster: horizontal when its cells, at least two, share a row,
  vertical when they share a column, and none otherwise.
\<close>

definition set_orient :: "coord set \<Rightarrow> orient option" where
  "set_orient S =
     (if card S \<ge> 2 then
        (if card (fst ` S) = 1 then Some Horizontal
         else if card (snd ` S) = 1 then Some Vertical
         else None)
      else None)"

definition intersects :: "coord list \<Rightarrow> cluster \<Rightarrow> bool" where
  "intersects cs cl \<longleftrightarrow> (\<exists>x \<in> set cs. x \<in> set (fst cl))"

definition cluster_fits :: "coord list \<Rightarrow> int \<Rightarrow> bool \<Rightarrow> cluster \<Rightarrow> bool" where
  "cluster_fits cs len horizontal cl \<longleftrightarrow>
     int (card (set (fst cl))) \<le> len \<and> set (fst cl) \<subseteq> set cs \<and>
     (snd cl = Some Horizontal \<longrightarrow> horizontal) \<and> (snd cl = Some Vertical \<longrightarrow> \<not> horizontal)"

text \<open>What the two checks of the source test, read off the list that \<open>hit_clusters\<close> returns.\<close>

definition counts_listed :: "int \<Rightarrow> grid \<Rightarrow> int \<Rightarrow> int \<Rightarrow> int \<Rightarrow> bool \<Rightarrow> bool" where
  "counts_listed n k r c len horizontal \<longleftrightarrow>
     (let cs = placement_cells r c len horizontal;
          met = filter (intersects cs) (hit_clusters n k)
      in (\<forall>q \<in> set cs. cell k (fst q) (snd q) \<noteq> MISS) \<and>
         (\<forall>cl \<in> set met. int (card (set (fst cl))) \<le> len \<and> set (fst cl) \<subseteq> set cs) \<and>
         (\<forall>cl \<in> set met. (snd cl = Some Horizontal \<longrightarrow> horizontal) \<and>
                           (snd cl = Some Vertical \<longrightarrow> \<not> horizontal)) \<and>
         length met \<le> 1)"

text \<open>
  Conditions (i) to (iv) of a counted placement, over the hit-clusters of the grid: no
  covered cell is \<open>MISS\<close>; every cluster met has at most \<open>len\<close> cells and lies inside the
  covered cells; no cluster met has the other orientation; at most one cluster is met.
\<close>

definition placement_counts :: "int \<Rightarrow> grid \<Rightarrow> int \<Rightarrow> int \<Rightarrow> int \<Rightarrow> bool \<Rightarrow> bool" where
  "placement_counts n k r c len horizontal \<longleftrightarrow>
     (let cs = set (placement_cells r c len horizontal) in
        (\<forall>q \<in> cs. cell k (fst q) (snd q) \<noteq> MISS) \<and>
        (\<forall>S \<in> hit_cluster_sets n k. S \<inter> cs \<noteq> {} \<longrightarrow> int (card S) \<le> len \<and> S \<subseteq> cs) \<and>
        (\<forall>S \<in> hit_cluster_sets n k. S \<inter> cs \<noteq> {} \<longrightarrow>
           (set_orient S = Some Horizontal \<longrightarrow> horizontal) \<and>
           (set_orient S = Some Vertical \<longrightarrow> \<not> horizontal)) \<and>
        (\<forall>S \<in> hit_cluster_sets n k. \<forall>T \<in> hit_cluster_sets n k.
           S \<inter> cs \<noteq> {} \<and> T \<inter> cs \<noteq> {} \<longrightarrow> S = T))"

definition covering_placements :: "int \<Rightarrow> grid \<Rightarrow> int \<Rightarrow> bool \<Rightarrow> coord \<Rightarrow> coord list" where
  "covering_placements n k len horizontal q =
     filter (\<lambda>p. placement_counts n k (fst p) (snd p) len horizontal \<and>
                  q \<in> set (placement_cells (fst p) (snd p) len horizontal))
            (origins n len horizontal)"

definition know_two :: grid where
  "know_two = [[HIT, - 1, HIT], [- 1, - 1, - 1], [- 1, - 1, - 1]]"

definition know_c1 :: grid where
  "know_c1 = [[HIT, HIT, - 1], [- 1, - 1, MISS], [- 1, - 1, - 1]]"

definition cluster_ok :: "int \<Rightarrow> grid \<Rightarrow> cluster \<Rightarrow> bool" where
  "cluster_ok n k cl \<longleftrightarrow>
     fst cl \<noteq> [] \<and> (\<forall>p \<in> set (fst cl). hit_at n k p) \<and> snd cl = cluster_orient (fst cl)"

text \<open>What holds between two rounds of the flood fill started at \<open>s\<close>, and between two cells of the scan.\<close>

definition dfs_inv ::
    "int \<Rightarrow> grid \<Rightarrow> coord set \<Rightarrow> coord \<Rightarrow> coord list \<Rightarrow> coord list \<Rightarrow> coord list \<Rightarrow> bool" where
  "dfs_inv n k V0 s visited stack cmp \<longleftrightarrow>
     set stack \<subseteq> component n k s \<and> set cmp \<subseteq> component n k s \<and>
     set visited = V0 \<union> set cmp \<union> set stack \<and>
     V0 \<inter> component n k s = {} \<and>
     (\<forall>x \<in> set cmp. \<forall>y \<in> set (nbrs4 x). hit_at n k y \<longrightarrow> y \<in> set visited) \<and>
     distinct cmp \<and> distinct stack \<and> set cmp \<inter> set stack = {} \<and>
     s \<in> set cmp \<union> set stack \<and> hit_at n k s"

definition found_inv :: "int \<Rightarrow> grid \<Rightarrow> coord list \<times> cluster list \<Rightarrow> bool" where
  "found_inv n k st \<longleftrightarrow>
     set (fst st) = \<Union> (set (map (set \<circ> fst) (snd st))) \<and>
     (\<forall>cl \<in> set (snd st). set (fst cl) \<in> hit_cluster_sets n k \<and> distinct (fst cl) \<and>
                            snd cl = cluster_orient (fst cl)) \<and>
     distinct (map (set \<circ> fst) (snd st))"

definition open_cell :: "int \<Rightarrow> grid \<Rightarrow> coord \<Rightarrow> bool" where
  "open_cell n k q \<longleftrightarrow> in_grid n (fst q) (snd q) \<and> cell k (fst q) (snd q) = - 1"

text \<open>The cells one listed cluster contributes, in the order the source emits them.\<close>

definition listed_targets :: "(coord list \<Rightarrow> coord list) \<Rightarrow> int \<Rightarrow> grid \<Rightarrow> cluster \<Rightarrow> coord list" where
  "listed_targets it n k cl =
     (case snd cl of
        None \<Rightarrow> filter (open_cell n k) (concat (map nbrs4 (it (fst cl))))
      | Some Horizontal \<Rightarrow>
          filter (open_cell n k)
            [(fst (hd (fst cl)), Min (snd ` set (fst cl)) - 1),
             (fst (hd (fst cl)), Max (snd ` set (fst cl)) + 1)]
      | Some Vertical \<Rightarrow>
          filter (open_cell n k)
            [(Min (fst ` set (fst cl)) - 1, snd (hd (fst cl))),
             (Max (fst ` set (fst cl)) + 1, snd (hd (fst cl)))])"

text \<open>
  What the specification asks of one hit-cluster: without orientation, the in-bounds
  Unknown orthogonal neighbours of its cells; with an orientation, the cell one step
  before the least and the cell one step after the greatest index along its axis, each
  only if it is in bounds and Unknown.
\<close>

definition cluster_targets :: "int \<Rightarrow> grid \<Rightarrow> coord set \<Rightarrow> coord set" where
  "cluster_targets n k S =
     (case set_orient S of
        None \<Rightarrow> {q. open_cell n k q \<and> (\<exists>p \<in> S. q \<in> set (nbrs4 p))}
      | Some Horizontal \<Rightarrow>
          {q. open_cell n k q \<and>
              (\<exists>r \<in> fst ` S. q = (r, Min (snd ` S) - 1) \<or> q = (r, Max (snd ` S) + 1))}
      | Some Vertical \<Rightarrow>
          {q. open_cell n k q \<and>
              (\<exists>c \<in> snd ` S. q = (Min (fst ` S) - 1, c) \<or> q = (Max (fst ` S) + 1, c))})"

definition knowledge_of :: "int \<Rightarrow> coord list \<Rightarrow> coord list \<Rightarrow> grid" where
  "knowledge_of n hs ms =
     map (\<lambda>r. map (\<lambda>c. if (r, c) \<in> set hs then HIT else if (r, c) \<in> set ms then MISS else - 1)
                  (py_range n)) (py_range n)"

definition nonneg_grid :: "int \<Rightarrow> grid \<Rightarrow> bool" where
  "nonneg_grid n h \<longleftrightarrow> (\<forall>r c. in_grid n r c \<longrightarrow> 0 \<le> cell h r c)"

definition std_ai :: ai where
  "std_ai = \<lparr> ai_size = 10, remaining_ships = [5, 4, 3, 3, 2] \<rparr>"

definition heat_a :: grid where
  "heat_a =
    [[10, 3, 19, 5, 22, 5, 21, 4, 15, 2], [3, 20, 6, 26, 6, 27, 6, 24, 5, 15],
     [19, 6, 28, 7, 31, 7, 30, 7, 24, 4], [5, 26, 7, 32, 8, 33, 8, 30, 6, 21],
     [22, 6, 31, 8, 34, 8, 33, 7, 27, 5], [5, 27, 7, 33, 8, 34, 8, 31, 6, 22],
     [21, 6, 30, 8, 33, 8, 32, 7, 26, 5], [4, 24, 7, 30, 7, 31, 7, 28, 6, 19],
     [15, 5, 24, 6, 27, 6, 26, 6, 20, 3], [2, 15, 4, 21, 5, 22, 5, 19, 3, 10]]"

definition ai_c2 :: ai where "ai_c2 = \<lparr> ai_size = 3, remaining_ships = [2] \<rparr>"

definition know_c2 :: grid where
  "know_c2 = knowledge_of 3 [] [(0, 0), (0, 1), (0, 2), (1, 0), (1, 1), (2, 0), (2, 1), (2, 2)]"

section \<open>Basic facts about grids\<close>

lemma py_range_mem: "i \<in> set (py_range n) \<longleftrightarrow> 0 \<le> i \<and> i < n"
  by (auto simp: py_range_def)

lemma py_range_length: "length (py_range n) = nat n"
  by (simp add: py_range_def)

lemma py_range_nth: "i < nat n \<Longrightarrow> py_range n ! i = int i"
  by (simp add: py_range_def)

lemma distinct_py_range: "distinct (py_range n)"
  by (simp add: py_range_def)

lemma distinct_grid_coords: "distinct (grid_coords n)"
  unfolding grid_coords_def
  by (rule distinct_concat)
     (auto simp: distinct_map distinct_py_range inj_on_def py_range_mem)

lemma square_grid_row: "square_grid n g \<Longrightarrow> 0 \<le> r \<Longrightarrow> r < n \<Longrightarrow> length (g ! nat r) = nat n"
  by (auto simp: square_grid_def list_all_length)

lemma cell_set_cell:
  assumes "square_grid n g" "in_grid n r c" "0 \<le> r'" "0 \<le> c'"
  shows "cell (set_cell g r c v) r' c' = (if r' = r \<and> c' = c then v else cell g r' c')"
proof -
  have len: "nat r < length g" "nat c < length (g ! nat r)"
    using assms square_grid_row[of n g r] by (auto simp: square_grid_def in_grid_def)
  show ?thesis
  proof (cases "r' = r")
    case True
    then show ?thesis using len assms
      by (auto simp: cell_def set_cell_def nth_list_update in_grid_def)
  next
    case False
    then have "nat r' \<noteq> nat r" using assms by (auto simp: in_grid_def)
    then show ?thesis using False by (simp add: cell_def set_cell_def)
  qed
qed

lemma square_set_cell:
  assumes "square_grid n g"
  shows "square_grid n (set_cell g r c v)"
proof -
  have "length row = nat n" if "row \<in> set (g[nat r := (g ! nat r)[nat c := v]])" for row
  proof (cases "nat r < length g")
    case True
    from that have "row = (g ! nat r)[nat c := v] \<or> row \<in> set g"
      using set_update_subset_insert[of g "nat r" "(g ! nat r)[nat c := v]"] by auto
    then show ?thesis
      using assms True by (auto simp: square_grid_def list_all_iff)
  next
    case False
    then have "g[nat r := (g ! nat r)[nat c := v]] = g"
      by (intro list_update_beyond) simp
    with that have "row \<in> set g" by simp
    then show ?thesis using assms by (simp add: square_grid_def list_all_iff)
  qed
  then have "\<forall>row \<in> set (g[nat r := (g ! nat r)[nat c := v]]). length row = nat n"
    by blast
  moreover have "length (g[nat r := (g ! nat r)[nat c := v]]) = nat n"
    using assms by (simp add: square_grid_def)
  ultimately show ?thesis
    unfolding square_grid_def set_cell_def list_all_iff by blast
qed

section \<open>Board invariant\<close>

lemma hit_ship_length: "length (fst (hit_ship p ss)) = length ss"
  by (induction ss) (auto simp: Let_def split: prod.splits)

lemma hit_ship_miss: "\<forall>s \<in> set ss. p \<notin> set (cells s) \<Longrightarrow> hit_ship p ss = (ss, None)"
  by (induction ss) auto

lemma hit_ship_nth:
  assumes "distinct (concat (map cells ss))" "i < length ss"
  shows "fst (hit_ship p ss) ! i =
           (if p \<in> set (cells (ss ! i)) then (ss ! i)\<lparr> hits := hits (ss ! i) + 1 \<rparr> else ss ! i)"
  using assms
proof (induction ss arbitrary: i)
  case Nil
  then show ?case by simp
next
  case (Cons s ss)
  show ?case
  proof (cases "p \<in> set (cells s)")
    case True
    show ?thesis
    proof (cases i)
      case 0
      then show ?thesis using True by (simp add: Let_def)
    next
      case (Suc j)
      then have "ss ! j \<in> set ss" using Cons.prems by simp
      then have "p \<notin> set (cells (ss ! j))" using Cons.prems(1) True by auto
      then show ?thesis using True Suc by (simp add: Let_def)
    qed
  next
    case False
    then show ?thesis using Cons
      by (cases i) (auto simp: Let_def split: prod.splits)
  qed
qed

lemma hit_ship_report:
  assumes "distinct (concat (map cells ss))" "i < length ss" "p \<in> set (cells (ss ! i))"
  shows "snd (hit_ship p ss) =
           (if hits (ss ! i) + 1 \<ge> ship_length (ss ! i) then Some (ship_length (ss ! i)) else None)"
  using assms
proof (induction ss arbitrary: i)
  case Nil
  then show ?case by simp
next
  case (Cons s ss)
  show ?case
  proof (cases "p \<in> set (cells s)")
    case True
    show ?thesis
    proof (cases i)
      case 0
      then show ?thesis using True by (simp add: Let_def sunk_def)
    next
      case (Suc j)
      then have "ss ! j \<in> set ss" using Cons.prems by simp
      then have "p \<notin> set (cells (ss ! j))" using Cons.prems(1) True by auto
      then show ?thesis using Cons.prems Suc by simp
    qed
  next
    case False
    then show ?thesis using Cons
      by (cases i) (auto simp: Let_def split: prod.splits)
  qed
qed

lemma hit_ship_cells: "map cells (fst (hit_ship p ss)) = map cells ss"
  by (induction ss) (auto simp: Let_def split: prod.splits)

lemma filter_one_more:
  assumes "distinct cs" "p \<in> set cs" "\<not> P p"
  shows "length (filter (\<lambda>q. q = p \<or> P q) cs) = Suc (length (filter P cs))"
  using assms
proof (induction cs)
  case Nil
  then show ?case by simp
next
  case (Cons a cs)
  show ?case
  proof (cases "a = p")
    case True
    then have "p \<notin> set cs" using Cons.prems by simp
    then have "filter (\<lambda>q. q = p \<or> P q) cs = filter P cs"
      by (intro filter_cong) auto
    then show ?thesis using True Cons.prems by simp
  next
    case False
    then show ?thesis using Cons by auto
  qed
qed

lemma ship_ok_miss:
  assumes sq: "square_grid n g" and ing: "in_grid n r c" and ok: "ship_ok g n s"
    and v: "cell g r c \<noteq> SHIP" "cell g r c \<noteq> HIT"
  shows "ship_ok (set_cell g r c v) n s"
proof -
  have same: "cell (set_cell g r c v) r' c' = cell g r' c'" if "(r', c') \<in> set (cells s)" for r' c'
  proof -
    from ok that have *: "in_grid n r' c'" "cell g r' c' = SHIP \<or> cell g r' c' = HIT"
      by (auto simp: ship_ok_def list_all_iff)
    then have "(r', c') \<noteq> (r, c)" using v by auto
    then show ?thesis using cell_set_cell[OF sq ing, of r' c' v] * by (auto simp: in_grid_def)
  qed
  have f: "filter (\<lambda>(r', c'). cell (set_cell g r c v) r' c' = HIT) (cells s) =
           filter (\<lambda>(r', c'). cell g r' c' = HIT) (cells s)"
    by (intro filter_cong) (auto simp: same)
  show ?thesis
    using ok unfolding ship_ok_def f list_all_iff by (auto simp: same)
qed

lemma ship_ok_hit:
  assumes sq: "square_grid n g" and ing: "in_grid n r c" and ok: "ship_ok g n s"
    and d: "distinct (cells s)" and v: "cell g r c = SHIP"
  shows "ship_ok (set_cell g r c HIT) n
           (if (r, c) \<in> set (cells s) then s\<lparr> hits := hits s + 1 \<rparr> else s)"
proof -
  have upd: "cell (set_cell g r c HIT) r' c' = (if (r', c') = (r, c) then HIT else cell g r' c')"
    if "(r', c') \<in> set (cells s)" for r' c'
  proof -
    from ok that have *: "in_grid n r' c'" by (auto simp: ship_ok_def list_all_iff)
    then show ?thesis using cell_set_cell[OF sq ing, of r' c' HIT] by (auto simp: in_grid_def)
  qed
  have f: "filter (\<lambda>(r', c'). cell (set_cell g r c HIT) r' c' = HIT) (cells s) =
           filter (\<lambda>q. q = (r, c) \<or> (case q of (r', c') \<Rightarrow> cell g r' c' = HIT)) (cells s)"
    by (intro filter_cong) (auto simp: upd split: if_splits)
  have allc: "list_all (\<lambda>(r', c'). in_grid n r' c' \<and>
        (cell (set_cell g r c HIT) r' c' = SHIP \<or> cell (set_cell g r c HIT) r' c' = HIT)) (cells s)"
    using ok unfolding ship_ok_def list_all_iff by (fastforce simp: upd)
  show ?thesis
  proof (cases "(r, c) \<in> set (cells s)")
    case True
    have "\<not> (case (r, c) of (r', c') \<Rightarrow> cell g r' c' = HIT)" using v by (simp add: cell_consts)
    from filter_one_more[OF d True, of "\<lambda>(r', c'). cell g r' c' = HIT", OF this]
    show ?thesis using True ok allc by (simp add: ship_ok_def f)
  next
    case False
    then have "filter (\<lambda>q. q = (r, c) \<or> (case q of (r', c') \<Rightarrow> cell g r' c' = HIT)) (cells s) =
               filter (\<lambda>(r', c'). cell g r' c' = HIT) (cells s)"
      by (intro filter_cong) auto
    then show ?thesis using False ok allc by (simp add: ship_ok_def f)
  qed
qed

lemma distinct_cells_nth:
  "distinct (concat (map cells ss)) \<Longrightarrow> i < length ss \<Longrightarrow> distinct (cells (ss ! i))"
  by (auto simp: distinct_concat_iff)

lemma receive_shot_size: "board_size (snd (receive_shot b r c)) = board_size b"
  by (auto simp: receive_shot_def Let_def split: prod.splits)

lemma receive_shot_nships: "length (ships (snd (receive_shot b r c))) = length (ships b)"
  using hit_ship_length[of "(r, c)" "ships b"]
  by (auto simp: receive_shot_def Let_def split: prod.splits)

lemma receive_shot_cells:
  "map cells (ships (snd (receive_shot b r c))) = map cells (ships b)"
  using hit_ship_cells[of "(r, c)" "ships b"]
  by (auto simp: receive_shot_def Let_def split: prod.splits)

lemma receive_shot_nth:
  assumes "distinct (concat (map cells (ships b)))" "i < length (ships b)"
  shows "ships (snd (receive_shot b r c)) ! i =
     (if in_bounds b r c \<and> cell (board_grid b) r c = SHIP \<and> (r, c) \<in> set (cells (ships b ! i))
      then (ships b ! i)\<lparr> hits := hits (ships b ! i) + 1 \<rparr> else ships b ! i)"
  using hit_ship_nth[OF assms, of "(r, c)"]
  by (auto simp: receive_shot_def Let_def cell_consts split: prod.splits)

lemma receive_shot_report:
  "fst (snd (fst (receive_shot b r c))) =
     (if in_bounds b r c \<and> cell (board_grid b) r c = SHIP
      then snd (hit_ship (r, c) (ships b)) else None)"
  by (auto simp: receive_shot_def Let_def cell_consts split: prod.splits)

lemma receive_shot_inv:
  assumes "board_inv b"
  shows "board_inv (snd (receive_shot b r c))"
proof -
  let ?g = "board_grid b" and ?n = "board_size b"
  from assms have sq: "square_grid ?n ?g" and oks: "list_all (ship_ok ?g ?n) (ships b)"
    and d: "distinct (concat (map cells (ships b)))"
    by (auto simp: board_inv_def)
  have dist': "distinct (concat (map cells (ships (snd (receive_shot b r c)))))"
    using d by (simp add: receive_shot_cells)
  show ?thesis
  proof (cases "in_bounds b r c \<and> cell ?g r c \<noteq> HIT \<and> cell ?g r c \<noteq> MISS")
    case False
    then have "receive_shot b r c = ((False, None, all_ships_sunk b), b)"
      by (auto simp: receive_shot_def Let_def)
    then show ?thesis using assms by simp
  next
    case True
    then have ing: "in_grid ?n r c" by (simp add: in_bounds_def in_grid_def)
    show ?thesis
    proof (cases "cell ?g r c = SHIP")
      case ship: True
      have g': "board_grid (snd (receive_shot b r c)) = set_cell ?g r c HIT"
        using True ship by (auto simp: receive_shot_def Let_def cell_consts split: prod.splits)
      have "ship_ok (set_cell ?g r c HIT) ?n (ships (snd (receive_shot b r c)) ! i)"
        if "i < length (ships b)" for i
      proof -
        have "ship_ok ?g ?n (ships b ! i)" using oks that by (simp add: list_all_length)
        from ship_ok_hit[OF sq ing this distinct_cells_nth[OF d that] ship]
        show ?thesis using receive_shot_nth[OF d that, of r c] True ship by simp
      qed
      then have "list_all (ship_ok (set_cell ?g r c HIT) ?n) (ships (snd (receive_shot b r c)))"
        by (simp add: list_all_length receive_shot_nships)
      then show ?thesis
        using dist' sq by (simp add: board_inv_def g' receive_shot_size square_set_cell)
    next
      case noship: False
      have b': "snd (receive_shot b r c) = b\<lparr> board_grid := set_cell ?g r c MISS \<rparr>"
        using True noship by (auto simp: receive_shot_def Let_def)
      have "ship_ok (set_cell ?g r c MISS) ?n s" if "s \<in> set (ships b)" for s
        using ship_ok_miss[OF sq ing _ noship] True oks that by (auto simp: list_all_iff)
      then show ?thesis
        using d sq by (simp add: board_inv_def b' square_set_cell list_all_iff)
    qed
  qed
qed

lemma ship_hits_below:
  assumes "ship_ok g n s" "(r, c) \<in> set (cells s)" "cell g r c = SHIP"
  shows "hits s < ship_length s"
proof -
  have "\<not> (case (r, c) of (r', c') \<Rightarrow> cell g r' c' = HIT)"
    using assms(3) by (simp add: cell_consts)
  from length_filter_less[of "(r, c)" "cells s" "\<lambda>(r', c'). cell g r' c' = HIT", OF assms(2) this]
  have "hits s < int (length (cells s))" using assms(1) by (simp add: ship_ok_def)
  moreover have "cells s \<noteq> []" using assms(2) by auto
  ultimately show ?thesis using assms(1) by (auto simp: ship_ok_def max_def split: if_splits)
qed

lemma receive_shot_step:
  assumes inv: "board_inv b" and i: "i < length (ships b)"
  shows "sunk_report_for i (b, (r, c), receive_shot b r c) \<longleftrightarrow>
         raises_to_sunk i (b, (r, c), receive_shot b r c)"
    and "ship_length (ships (snd (receive_shot b r c)) ! i) = ship_length (ships b ! i)"
    and "cells (ships (snd (receive_shot b r c)) ! i) = cells (ships b ! i)"
    and "hits (ships (snd (receive_shot b r c)) ! i) = hits (ships b ! i) \<or>
         hits (ships (snd (receive_shot b r c)) ! i) = hits (ships b ! i) + 1"
proof -
  let ?s = "ships b ! i" and ?b' = "snd (receive_shot b r c)"
  from inv have d: "distinct (concat (map cells (ships b)))"
    and ok: "ship_ok (board_grid b) (board_size b) ?s"
    using i by (auto simp: board_inv_def list_all_length)
  note nth = receive_shot_nth[OF d i, of r c]
  show "ship_length (ships ?b' ! i) = ship_length ?s" by (simp add: nth)
  show "cells (ships ?b' ! i) = cells ?s" by (simp add: nth)
  show "hits (ships ?b' ! i) = hits ?s \<or> hits (ships ?b' ! i) = hits ?s + 1" by (simp add: nth)
  show "sunk_report_for i (b, (r, c), receive_shot b r c) \<longleftrightarrow>
        raises_to_sunk i (b, (r, c), receive_shot b r c)"
  proof (cases "in_bounds b r c \<and> cell (board_grid b) r c = SHIP \<and> (r, c) \<in> set (cells ?s)")
    case True
    then have "(r, c) \<in> set (cells ?s)" "cell (board_grid b) r c = SHIP" by auto
    from ship_hits_below[OF ok this] have lt: "hits ?s < ship_length ?s" .
    have rep: "fst (snd (fst (receive_shot b r c))) =
        (if hits ?s + 1 \<ge> ship_length ?s then Some (ship_length ?s) else None)"
      using True hit_ship_report[OF d i, of "(r, c)"] by (simp add: receive_shot_report)
    show ?thesis
      using True lt
      by (cases "receive_shot b r c")
         (use rep nth in \<open>auto simp: sunk_report_for_def raises_to_sunk_def\<close>)
  next
    case False
    then have same: "ships ?b' ! i = ?s" by (simp add: nth)
    have "\<not> sunk_report_for i (b, (r, c), receive_shot b r c)"
    proof (cases "(r, c) \<in> set (cells ?s)")
      case True
      with False have "fst (snd (fst (receive_shot b r c))) = None"
        by (auto simp: receive_shot_report)
      then show ?thesis
        by (cases "receive_shot b r c") (auto simp: sunk_report_for_def)
    next
      case False
      then show ?thesis
        by (cases "receive_shot b r c") (auto simp: sunk_report_for_def)
    qed
    moreover have "\<not> raises_to_sunk i (b, (r, c), receive_shot b r c)"
      using same by (cases "receive_shot b r c") (auto simp: raises_to_sunk_def)
    ultimately show ?thesis by simp
  qed
qed

lemma sunk_stays:
  assumes "board_inv b" "i < length (ships b)" "sunk (ships b ! i)"
  shows "sunk (ships (final_board b ps) ! i)"
  using assms
proof (induction ps arbitrary: b)
  case Nil
  then show ?case by (simp add: final_board_def)
next
  case (Cons p ps)
  let ?b' = "snd (receive_shot b (fst p) (snd p))"
  have "sunk (ships ?b' ! i)"
    using receive_shot_step(2,4)[OF Cons.prems(1,2), of "fst p" "snd p"] Cons.prems(3)
    by (auto simp: sunk_def)
  from Cons.IH[OF receive_shot_inv[OF Cons.prems(1)] _ this]
  show ?case using Cons.prems(2) by (simp add: final_board_def receive_shot_nships)
qed

lemma count_sunk_reports:
  assumes "board_inv b" "i < length (ships b)"
  shows "length (filter (sunk_report_for i) (run_shots b ps)) =
         (if \<not> sunk (ships b ! i) \<and> sunk (ships (final_board b ps) ! i) then 1 else 0)"
  using assms
proof (induction ps arbitrary: b)
  case Nil
  then show ?case by (simp add: final_board_def)
next
  case (Cons p ps)
  let ?res = "receive_shot b (fst p) (snd p)"
  let ?b' = "snd ?res"
  let ?e = "(b, p, ?res)"
  have inv': "board_inv ?b'" by (rule receive_shot_inv[OF Cons.prems(1)])
  have i': "i < length (ships ?b')" using Cons.prems(2) by (simp add: receive_shot_nships)
  note step = receive_shot_step[OF Cons.prems, of "fst p" "snd p"]
  have run: "run_shots b (p # ps) = ?e # run_shots ?b' ps"
    by (cases ?res) simp
  have fin: "final_board b (p # ps) = final_board ?b' ps"
    by (simp add: final_board_def)
  have e_iff: "sunk_report_for i ?e \<longleftrightarrow> raises_to_sunk i ?e"
    using step(1) by simp
  have raise_def: "raises_to_sunk i ?e \<longleftrightarrow>
      hits (ships b ! i) = ship_length (ships b ! i) - 1 \<and>
      hits (ships ?b' ! i) = ship_length (ships b ! i)"
    using step(2) by (cases ?res) (auto simp: raises_to_sunk_def)
  show ?case
  proof (cases "sunk (ships b ! i)")
    case True
    then have "\<not> raises_to_sunk i ?e" by (auto simp: raise_def sunk_def)
    moreover have "sunk (ships ?b' ! i)" using True step(2,4) by (auto simp: sunk_def)
    ultimately show ?thesis
      using True Cons.IH[OF inv' i'] e_iff by (simp add: run del: run_shots.simps)
  next
    case False
    show ?thesis
    proof (cases "raises_to_sunk i ?e")
      case True
      then have s': "sunk (ships ?b' ! i)" using step(2) by (simp add: raise_def sunk_def)
      from sunk_stays[OF inv' i' this, of ps] s'
      show ?thesis
        using True False Cons.IH[OF inv' i'] e_iff by (simp add: run fin del: run_shots.simps)
    next
      case nr: False
      then have "\<not> sunk (ships ?b' ! i)"
        using False step(2,4) by (auto simp: raise_def sunk_def)
      then show ?thesis
        using nr False Cons.IH[OF inv' i'] e_iff by (simp add: run fin del: run_shots.simps)
    qed
  qed
qed

lemma run_shots_inv:
  assumes "board_inv b" "(b0, p, res, b1) \<in> set (run_shots b ps)"
  shows "board_inv b0 \<and> length (ships b0) = length (ships b) \<and> (res, b1) = receive_shot b0 (fst p) (snd p)"
  using assms
proof (induction ps arbitrary: b)
  case Nil
  then show ?case by simp
next
  case (Cons q ps)
  let ?b' = "snd (receive_shot b (fst q) (snd q))"
  from Cons.prems(2) consider "(b0, p, res, b1) = (b, q, receive_shot b (fst q) (snd q))"
    | "(b0, p, res, b1) \<in> set (run_shots ?b' ps)"
    by (cases "receive_shot b (fst q) (snd q)") auto
  then show ?case
  proof cases
    case 1
    then show ?thesis using Cons.prems(1) by (cases "receive_shot b (fst q) (snd q)") auto
  next
    case 2
    from Cons.IH[OF receive_shot_inv[OF Cons.prems(1)] 2]
    show ?thesis by (simp add: receive_shot_nships)
  qed
qed

section \<open>Ranking the unknown cells\<close>

lemma ranked_unknown_alt:
  "ranked_unknown n heat k =
     rev (sort (map (\<lambda>p. (cell heat (fst p) (snd p), fst p, snd p)) (unknown_cells n k)))"
  by (simp add: ranked_unknown_def unknown_cells_def)

lemma ranked_unknown_set:
  "set (ranked_unknown n heat k) =
     (\<lambda>p. (cell heat (fst p) (snd p), fst p, snd p)) ` set (unknown_cells n k)"
  by (simp add: ranked_unknown_alt)

lemma ranked_unknown_sorted: "sorted (rev (ranked_unknown n heat k))"
  by (simp add: ranked_unknown_alt)

lemma ranked_unknown_length: "length (ranked_unknown n heat k) = length (unknown_cells n k)"
  by (simp add: ranked_unknown_alt)

lemma ranked_unknown_cells:
  "set (map snd (ranked_unknown n heat k)) = set (unknown_cells n k)"
  by (force simp: ranked_unknown_set)

lemma unknown_cells_mem:
  "(r, c) \<in> set (unknown_cells n k) \<longleftrightarrow> in_grid n r c \<and> cell k r c = - 1"
  by (auto simp: unknown_cells_def grid_coords_mem)

lemma top_candidates_subset:
  "set (top_candidates n heat k kk) \<subseteq> set (unknown_cells n k)"
proof -
  have "set (py_take kk xs) \<subseteq> set xs" for xs :: "(int \<times> int \<times> int) list"
    by (auto simp: py_take_def dest: in_set_takeD)
  then have "set (map snd (py_take kk (ranked_unknown n heat k))) \<subseteq> set (unknown_cells n k)"
    using ranked_unknown_cells[of n heat k] by fastforce
  moreover have "set (map snd (filter (\<lambda>t. fst t > 0) (py_take kk (ranked_unknown n heat k))))
      \<subseteq> set (map snd (py_take kk (ranked_unknown n heat k)))"
    by auto
  ultimately show ?thesis
    unfolding top_candidates_def Let_def by (auto split: if_splits)
qed

lemma top_candidates_nonempty:
  assumes "kk \<ge> 1" "unknown_cells n k \<noteq> []"
  shows "top_candidates n heat k kk \<noteq> []"
proof -
  have "ranked_unknown n heat k \<noteq> []"
    using assms(2) ranked_unknown_length[of n heat k] by auto
  then have "py_take kk (ranked_unknown n heat k) \<noteq> []"
    using assms(1) by (simp add: py_take_def)
  then show ?thesis
    by (simp add: top_candidates_def Let_def)
qed

section \<open>Heat grids\<close>

lemma square_zero_grid: "square_grid n (zero_grid n)"
  by (simp add: square_grid_def zero_grid_def list_all_iff)

lemma cell_zero_grid: "in_grid n r c \<Longrightarrow> cell (zero_grid n) r c = 0"
  by (simp add: cell_def zero_grid_def in_grid_def)

lemma square_add_cell: "square_grid n h \<Longrightarrow> square_grid n (add_cell h r c v)"
  by (simp add: add_cell_def square_set_cell)

lemma cell_add_cell:
  assumes "square_grid n h" "in_grid n r c" "0 \<le> r'" "0 \<le> c'"
  shows "cell (add_cell h r c v) r' c' = cell h r' c' + (if r' = r \<and> c' = c then v else 0)"
  using cell_set_cell[OF assms, of "cell h r c + v"] by (simp add: add_cell_def)

lemma fold_add_cell_square:
  "square_grid n h \<Longrightarrow> square_grid n (fold (\<lambda>i h. add_cell h (fr i) (fc i) v) xs h)"
  by (induction xs arbitrary: h) (simp_all add: square_add_cell)

lemma fold_add_cell_count:
  assumes "square_grid n h" "\<forall>i \<in> set xs. in_grid n (fr i) (fc i)" "0 \<le> r'" "0 \<le> c'"
  shows "cell (fold (\<lambda>i h. add_cell h (fr i) (fc i) v) xs h) r' c' =
         cell h r' c' + v * int (length (filter (\<lambda>i. fr i = r' \<and> fc i = c') xs))"
  using assms
proof (induction xs arbitrary: h)
  case Nil
  then show ?case by simp
next
  case (Cons a xs)
  have sq: "square_grid n (add_cell h (fr a) (fc a) v)"
    using Cons.prems(1) by (rule square_add_cell)
  have "cell (fold (\<lambda>i h. add_cell h (fr i) (fc i) v) xs (add_cell h (fr a) (fc a) v)) r' c' =
        cell (add_cell h (fr a) (fc a) v) r' c' +
          v * int (length (filter (\<lambda>i. fr i = r' \<and> fc i = c') xs))"
    using Cons.IH[OF sq] Cons.prems by simp
  also have "cell (add_cell h (fr a) (fc a) v) r' c' =
      cell h r' c' + (if r' = fr a \<and> c' = fc a then v else 0)"
    using cell_add_cell[OF Cons.prems(1) _ Cons.prems(3,4), of "fr a" "fc a" v] Cons.prems(2)
    by simp
  finally show ?case by (auto simp: algebra_simps)
qed

section \<open>Hit clusters\<close>

declare dfs.simps [simp del]

lemma push_nbr_stack:
  "set (snd (push_nbr n k p st)) \<subseteq> set (snd st) \<union> {q. hit_at n k q}"
  by (cases st) (auto simp: push_nbr_def hit_at_def)

lemma fold_push_nbr_stack:
  "set (snd (fold (push_nbr n k) ps st)) \<subseteq> set (snd st) \<union> {q. hit_at n k q}"
proof (induction ps arbitrary: st)
  case Nil
  then show ?case by simp
next
  case (Cons p ps)
  show ?case using Cons.IH[of "push_nbr n k p st"] push_nbr_stack[of n k p st] by auto
qed

lemma dfs_cells:
  assumes "\<forall>p \<in> set stack. hit_at n k p" "\<forall>p \<in> set cmp. hit_at n k p"
  shows "\<forall>p \<in> set (snd (dfs n k visited stack cmp)). hit_at n k p"
  using assms
proof (induction n k visited stack cmp rule: dfs.induct)
  case (1 n k visited cmp)
  then show ?case by (simp add: dfs.simps(1))
next
  case (2 n k visited p stack cmp)
  have a: "\<forall>q \<in> set (snd (fold (push_nbr n k) (nbrs4 p) (visited, stack))). hit_at n k q"
    using fold_push_nbr_stack[of n k "nbrs4 p" "(visited, stack)"] "2.prems"(1) by auto
  have b: "\<forall>q \<in> set (if p \<in> set cmp then cmp else cmp @ [p]). hit_at n k q"
    using "2.prems" by auto
  from "2.IH"[OF a b] show ?case unfolding dfs.simps(2) .
qed

lemma dfs_nonempty:
  "stack \<noteq> [] \<or> cmp \<noteq> [] \<Longrightarrow> snd (dfs n k visited stack cmp) \<noteq> []"
proof (induction n k visited stack cmp rule: dfs.induct)
  case (1 n k visited cmp)
  then show ?case by (simp add: dfs.simps(1))
next
  case (2 n k visited p stack cmp)
  have "(if p \<in> set cmp then cmp else cmp @ [p]) \<noteq> []" by auto
  then have "snd (fold (push_nbr n k) (nbrs4 p) (visited, stack)) \<noteq> [] \<or>
             (if p \<in> set cmp then cmp else cmp @ [p]) \<noteq> []" by blast
  from "2.IH"[OF this] show ?case unfolding dfs.simps(2) .
qed

lemma visit_cell_ok:
  assumes "p \<in> set (grid_coords n)" "\<forall>cl \<in> set (snd st). cluster_ok n k cl"
  shows "\<forall>cl \<in> set (snd (visit_cell n k p st)). cluster_ok n k cl"
proof (cases st)
  case (Pair visited clusters)
  show ?thesis
  proof (cases "cell k (fst p) (snd p) = HIT \<and> p \<notin> set visited")
    case True
    then have hp: "hit_at n k p"
      using assms(1) grid_coords_mem[of "fst p" "snd p" n] by (simp add: hit_at_def)
    have "cluster_ok n k (snd (dfs n k (p # visited) [p] []),
                          cluster_orient (snd (dfs n k (p # visited) [p] [])))"
      using dfs_cells[of "[p]" n k "[]" "p # visited"] hp
        dfs_nonempty[of "[p]" "[]" n k "p # visited"]
      by (simp add: cluster_ok_def)
    then show ?thesis using True Pair assms(2) by (simp add: visit_cell_def Let_def)
  next
    case False
    then show ?thesis using Pair assms(2) by (auto simp: visit_cell_def)
  qed
qed

lemma fold_visit_cell_ok:
  assumes "set ps \<subseteq> set (grid_coords n)" "\<forall>cl \<in> set (snd st). cluster_ok n k cl"
  shows "\<forall>cl \<in> set (snd (fold (visit_cell n k) ps st)). cluster_ok n k cl"
  using assms
proof (induction ps arbitrary: st)
  case Nil
  then show ?case by simp
next
  case (Cons p ps)
  have p: "p \<in> set (grid_coords n)" and ps: "set ps \<subseteq> set (grid_coords n)"
    using Cons.prems(1) by auto
  have "\<forall>cl \<in> set (snd (visit_cell n k p st)). cluster_ok n k cl"
    by (rule visit_cell_ok[OF p Cons.prems(2)])
  from Cons.IH[OF ps this] show ?case by (simp only: fold_simps)
qed

lemma hit_clusters_ok: "\<forall>cl \<in> set (hit_clusters n k). cluster_ok n k cl"
proof -
  have "\<forall>cl \<in> set (snd (([], []) :: coord list \<times> cluster list)). cluster_ok n k cl" by simp
  from fold_visit_cell_ok[OF subset_refl this] show ?thesis
    unfolding hit_clusters_def .
qed

lemma horizontal_same_row:
  assumes "cluster_orient cmp = Some Horizontal" "p \<in> set cmp"
  shows "fst p = fst (hd cmp)"
proof -
  from assms(1) have "card (fst ` set cmp) = 1"
    by (auto simp: cluster_orient_def split: if_splits)
  then obtain x where x: "fst ` set cmp = {x}" by (auto simp: card_1_singleton_iff)
  have "cmp \<noteq> []" using assms(2) by auto
  then have "hd cmp \<in> set cmp" by simp
  with x assms(2) show ?thesis by (metis imageI singletonD)
qed

lemma vertical_same_col:
  assumes "cluster_orient cmp = Some Vertical" "p \<in> set cmp"
  shows "snd p = snd (hd cmp)"
proof -
  from assms(1) have "card (snd ` set cmp) = 1"
    by (auto simp: cluster_orient_def split: if_splits)
  then obtain x where x: "snd ` set cmp = {x}" by (auto simp: card_1_singleton_iff)
  have "cmp \<noteq> []" using assms(2) by auto
  then have "hd cmp \<in> set cmp" by simp
  with x assms(2) show ?thesis by (metis imageI singletonD)
qed

lemma nbrs4_sym: "q \<in> set (nbrs4 p) \<longleftrightarrow> p \<in> set (nbrs4 q)"
  by (cases p; cases q) (auto simp: nbrs4_def)

lemma nbrs4_mem:
  "q \<in> set (nbrs4 p) \<longleftrightarrow>
     q = (fst p + 1, snd p) \<or> q = (fst p - 1, snd p) \<or> q = (fst p, snd p + 1) \<or> q = (fst p, snd p - 1)"
  by (auto simp: nbrs4_def)

lemma sym_hit_adj: "sym (hit_adj n k)"
  unfolding sym_def hit_adj_def using nbrs4_sym by auto

lemma component_refl: "p \<in> component n k p"
  by (simp add: component_def)

lemma component_sym: "q \<in> component n k p \<Longrightarrow> p \<in> component n k q"
  unfolding component_def using sym_rtrancl[OF sym_hit_adj, of n k] by (auto dest: symD)

lemma component_trans: "q \<in> component n k p \<Longrightarrow> r \<in> component n k q \<Longrightarrow> r \<in> component n k p"
  unfolding component_def by auto

lemma component_eq: "q \<in> component n k p \<Longrightarrow> component n k q = component n k p"
  using component_sym component_trans by blast

lemma component_hit:
  assumes "hit_at n k p" "q \<in> component n k p"
  shows "hit_at n k q"
proof -
  from assms(2) have "(p, q) \<in> (hit_adj n k)\<^sup>*" by (simp add: component_def)
  then show ?thesis using assms(1)
    by (induction rule: rtrancl_induct) (auto simp: hit_adj_def)
qed

lemma component_step:
  assumes "x \<in> component n k p" "hit_at n k x" "hit_at n k y" "y \<in> set (nbrs4 x)"
  shows "y \<in> component n k p"
proof -
  have "(x, y) \<in> hit_adj n k" using assms(2-4) by (simp add: hit_adj_def)
  then show ?thesis using assms(1) unfolding component_def by auto
qed

lemma push_nbr_sets:
  "set (fst (push_nbr n k q st)) = set (fst st) \<union> {x \<in> {q}. hit_at n k x} \<and>
   set (snd (push_nbr n k q st)) = set (snd st) \<union> ({x \<in> {q}. hit_at n k x} - set (fst st)) \<and>
   (distinct (snd st) \<and> set (snd st) \<subseteq> set (fst st) \<longrightarrow>
      distinct (snd (push_nbr n k q st)) \<and> set (snd (push_nbr n k q st)) \<subseteq> set (fst (push_nbr n k q st)))"
  by (cases st) (auto simp: push_nbr_def hit_at_def)

lemma fold_push_nbr_sets:
  "set (fst (fold (push_nbr n k) qs st)) = set (fst st) \<union> {x \<in> set qs. hit_at n k x} \<and>
   set (snd (fold (push_nbr n k) qs st)) = set (snd st) \<union> ({x \<in> set qs. hit_at n k x} - set (fst st)) \<and>
   (distinct (snd st) \<and> set (snd st) \<subseteq> set (fst st) \<longrightarrow>
      distinct (snd (fold (push_nbr n k) qs st)) \<and>
      set (snd (fold (push_nbr n k) qs st)) \<subseteq> set (fst (fold (push_nbr n k) qs st)))"
proof (induction qs arbitrary: st)
  case Nil
  then show ?case by simp
next
  case (Cons q qs)
  note one = push_nbr_sets[of n k q st]
  note rest = Cons.IH[of "push_nbr n k q st"]
  have f: "fold (push_nbr n k) (q # qs) st = fold (push_nbr n k) qs (push_nbr n k q st)" by simp
  show ?case unfolding f using one rest by (simp only:) (auto)
qed


lemma dfs_inv_step:
  assumes inv: "dfs_inv n k V0 s visited (p # stack) cmp"
  shows "dfs_inv n k V0 s (fst (fold (push_nbr n k) (nbrs4 p) (visited, stack)))
           (snd (fold (push_nbr n k) (nbrs4 p) (visited, stack))) (cmp @ [p])"
proof -
  let ?C = "component n k s"
  let ?H = "{x \<in> set (nbrs4 p). hit_at n k x}"
  let ?v' = "fst (fold (push_nbr n k) (nbrs4 p) (visited, stack))"
  let ?s' = "snd (fold (push_nbr n k) (nbrs4 p) (visited, stack))"
  from inv have stC: "set stack \<subseteq> ?C" and pC: "p \<in> ?C" and cC: "set cmp \<subseteq> ?C"
    and vis: "set visited = V0 \<union> set cmp \<union> insert p (set stack)"
    and v0: "V0 \<inter> ?C = {}"
    and clo: "\<forall>x \<in> set cmp. \<forall>y \<in> set (nbrs4 x). hit_at n k y \<longrightarrow> y \<in> set visited"
    and dc: "distinct cmp" and ds: "distinct stack" and pst: "p \<notin> set stack"
    and disj: "set cmp \<inter> set stack = {}" and pc: "p \<notin> set cmp"
    and s: "s \<in> set cmp \<union> insert p (set stack)" and hs: "hit_at n k s"
    by (auto simp: dfs_inv_def)
  have hp: "hit_at n k p" using component_hit[OF hs pC] .
  have HC: "?H \<subseteq> ?C" using component_step[OF pC hp] by blast
  note fp = fold_push_nbr_sets[of n k "nbrs4 p" "(visited, stack)"]
  have v': "set ?v' = set visited \<union> ?H" using fp by simp
  have s': "set ?s' = set stack \<union> (?H - set visited)" using fp by simp
  have "set stack \<subseteq> set visited" using vis by auto
  then have ds': "distinct ?s'" using fp ds by simp
  have 1: "set ?s' \<subseteq> ?C" using s' stC HC by auto
  have 2: "set (cmp @ [p]) \<subseteq> ?C" using cC pC by simp
  have 3: "set ?v' = V0 \<union> set (cmp @ [p]) \<union> set ?s'" unfolding v' s' using vis by auto
  have 5: "\<forall>x \<in> set (cmp @ [p]). \<forall>y \<in> set (nbrs4 x). hit_at n k y \<longrightarrow> y \<in> set ?v'"
    unfolding v' using clo by auto
  have 6: "distinct (cmp @ [p])" using dc pc by simp
  have 7: "set (cmp @ [p]) \<inter> set ?s' = {}" unfolding s' using disj pst vis by auto
  have 8: "s \<in> set (cmp @ [p]) \<union> set ?s'" unfolding s' using s by auto
  show ?thesis
    unfolding dfs_inv_def using 1 2 3 v0 5 6 ds' 7 8 hs by blast
qed

lemma dfs_inv_done:
  assumes inv: "dfs_inv n k V0 s visited [] cmp"
  shows "set cmp = component n k s \<and> distinct cmp \<and> set visited = V0 \<union> component n k s"
proof -
  let ?C = "component n k s"
  from inv have cC: "set cmp \<subseteq> ?C" and vis: "set visited = V0 \<union> set cmp"
    and v0: "V0 \<inter> ?C = {}"
    and clo: "\<forall>x \<in> set cmp. \<forall>y \<in> set (nbrs4 x). hit_at n k y \<longrightarrow> y \<in> set visited"
    and dc: "distinct cmp" and s: "s \<in> set cmp" and hs: "hit_at n k s"
    by (auto simp: dfs_inv_def)
  have "q \<in> set cmp" if "(s, q) \<in> (hit_adj n k)\<^sup>*" for q
    using that
  proof (induction rule: rtrancl_induct)
    case base
    then show ?case using s .
  next
    case (step y z)
    then have "hit_at n k z" "z \<in> set (nbrs4 y)" by (auto simp: hit_adj_def)
    then have "z \<in> set visited" using clo step.IH by blast
    moreover have "z \<in> ?C" using step.hyps unfolding component_def by auto
    ultimately show ?case using vis v0 by auto
  qed
  then have "?C \<subseteq> set cmp" by (auto simp: component_def)
  then show ?thesis using cC dc vis by auto
qed

lemma dfs_result:
  assumes "dfs_inv n k V0 s visited stack cmp"
  shows "set (snd (dfs n k visited stack cmp)) = component n k s \<and>
         distinct (snd (dfs n k visited stack cmp)) \<and>
         set (fst (dfs n k visited stack cmp)) = V0 \<union> component n k s"
  using assms
proof (induction n k visited stack cmp rule: dfs.induct)
  case (1 n k visited cmp)
  then show ?case using dfs_inv_done[of n k V0 s visited cmp] by (simp add: dfs.simps(1))
next
  case (2 n k visited p stack cmp)
  have pc: "p \<notin> set cmp" using "2.prems" by (auto simp: dfs_inv_def)
  have e: "(if p \<in> set cmp then cmp else cmp @ [p]) = cmp @ [p]" using pc by simp
  have "dfs_inv n k V0 s (fst (fold (push_nbr n k) (nbrs4 p) (visited, stack)))
           (snd (fold (push_nbr n k) (nbrs4 p) (visited, stack)))
           (if p \<in> set cmp then cmp else cmp @ [p])"
    unfolding e by (rule dfs_inv_step[OF "2.prems"])
  from "2.IH"[OF this] show ?case unfolding dfs.simps(2) .
qed

lemma visit_cell_found:
  assumes inv: "found_inv n k st" and p: "p \<in> set (grid_coords n)"
  shows "found_inv n k (visit_cell n k p st) \<and> set (fst st) \<subseteq> set (fst (visit_cell n k p st)) \<and>
         (hit_at n k p \<longrightarrow> p \<in> set (fst (visit_cell n k p st)))"
proof -
  obtain visited clusters where st: "st = (visited, clusters)" by (cases st)
  have ing: "in_grid n (fst p) (snd p)" using p grid_coords_mem[of "fst p" "snd p" n] by simp
  show ?thesis
  proof (cases "cell k (fst p) (snd p) = HIT \<and> p \<notin> set visited")
    case False
    then have "visit_cell n k p st = st" by (auto simp: visit_cell_def st)
    moreover have "hit_at n k p \<longrightarrow> p \<in> set (fst st)" using False by (auto simp: hit_at_def st)
    ultimately show ?thesis using inv by simp
  next
    case True
    let ?C = "component n k p"
    let ?res = "dfs n k (p # visited) [p] []"
    have hp: "hit_at n k p" using True ing by (simp add: hit_at_def)
    from inv have vis: "set visited = \<Union> (set (map (set \<circ> fst) clusters))"
      and cls: "\<forall>cl \<in> set clusters. set (fst cl) \<in> hit_cluster_sets n k \<and> distinct (fst cl) \<and>
                            snd cl = cluster_orient (fst cl)"
      and dist: "distinct (map (set \<circ> fst) clusters)"
      by (auto simp: found_inv_def st)
    have sep: "set visited \<inter> ?C = {}"
    proof (rule ccontr)
      assume "set visited \<inter> ?C \<noteq> {}"
      then obtain x where xv: "x \<in> set visited" and xc: "x \<in> ?C" by blast
      from xv vis obtain cl where cl: "cl \<in> set clusters" "x \<in> set (fst cl)" by auto
      with cls obtain q where q: "set (fst cl) = component n k q" by (auto simp: hit_cluster_sets_def)
      have "component n k x = component n k q" using cl(2) q component_eq by blast
      moreover have "component n k x = ?C" using xc by (rule component_eq)
      ultimately have "p \<in> set (fst cl)" using q component_refl by blast
      then have "p \<in> set visited" using vis cl(1) by auto
      then show False using True by simp
    qed
    have "dfs_inv n k (set visited) p (p # visited) [p] []"
      unfolding dfs_inv_def using sep hp component_refl[of p n k] by auto
    from dfs_result[OF this]
    have rc: "set (snd ?res) = ?C" and rd: "distinct (snd ?res)"
      and rv: "set (fst ?res) = set visited \<union> ?C" by blast+
    have vc: "visit_cell n k p st = (fst ?res, clusters @ [(snd ?res, cluster_orient (snd ?res))])"
      using True by (simp add: visit_cell_def st Let_def)
    have new: "?C \<notin> set (map (set \<circ> fst) clusters)"
    proof
      assume "?C \<in> set (map (set \<circ> fst) clusters)"
      then have "?C \<subseteq> set visited" using vis by auto
      then show False using sep component_refl[of p n k] by auto
    qed
    have "found_inv n k (visit_cell n k p st)"
      unfolding vc found_inv_def
      using vis cls dist rc rd rv new hp by (auto simp: hit_cluster_sets_def)
    moreover have "set (fst st) \<subseteq> set (fst (visit_cell n k p st))"
      unfolding vc using rv by (auto simp: st)
    moreover have "p \<in> set (fst (visit_cell n k p st))"
      unfolding vc using rv component_refl[of p n k] by auto
    ultimately show ?thesis by blast
  qed
qed

lemma fold_visit_cell_found:
  assumes "found_inv n k st" "set ps \<subseteq> set (grid_coords n)"
  shows "found_inv n k (fold (visit_cell n k) ps st) \<and>
         set (fst st) \<subseteq> set (fst (fold (visit_cell n k) ps st)) \<and>
         (\<forall>p \<in> set ps. hit_at n k p \<longrightarrow> p \<in> set (fst (fold (visit_cell n k) ps st)))"
  using assms
proof (induction ps arbitrary: st)
  case Nil
  then show ?case by simp
next
  case (Cons p ps)
  have p: "p \<in> set (grid_coords n)" and ps: "set ps \<subseteq> set (grid_coords n)"
    using Cons.prems(2) by auto
  note one = visit_cell_found[OF Cons.prems(1) p]
  from one have inv1: "found_inv n k (visit_cell n k p st)" by blast
  note rest = Cons.IH[OF inv1 ps]
  have f: "fold (visit_cell n k) (p # ps) st = fold (visit_cell n k) ps (visit_cell n k p st)" by simp
  show ?case unfolding f using one rest by (simp only: set_simps) blast
qed

lemma hit_clusters_correct:
  "set (map (set \<circ> fst) (hit_clusters n k)) = hit_cluster_sets n k \<and>
   distinct (map (set \<circ> fst) (hit_clusters n k)) \<and>
   (\<forall>cl \<in> set (hit_clusters n k). distinct (fst cl) \<and> snd cl = cluster_orient (fst cl))"
proof -
  let ?st = "fold (visit_cell n k) (grid_coords n) ([], [])"
  have "found_inv n k ([], [])" by (simp add: found_inv_def)
  from fold_visit_cell_found[OF this subset_refl]
  have inv: "found_inv n k ?st"
    and all: "\<forall>p \<in> set (grid_coords n). hit_at n k p \<longrightarrow> p \<in> set (fst ?st)" by blast+
  have cl: "hit_clusters n k = snd ?st" by (simp add: hit_clusters_def)
  from inv have vis: "set (fst ?st) = \<Union> (set (map (set \<circ> fst) (hit_clusters n k)))"
    and cls: "\<forall>cl \<in> set (hit_clusters n k). set (fst cl) \<in> hit_cluster_sets n k \<and>
                 distinct (fst cl) \<and> snd cl = cluster_orient (fst cl)"
    and dist: "distinct (map (set \<circ> fst) (hit_clusters n k))"
    unfolding found_inv_def cl by blast+
  have sub: "set (map (set \<circ> fst) (hit_clusters n k)) \<subseteq> hit_cluster_sets n k"
    using cls by auto
  have sup: "hit_cluster_sets n k \<subseteq> set (map (set \<circ> fst) (hit_clusters n k))"
  proof
    fix S assume "S \<in> hit_cluster_sets n k"
    then obtain p where p: "hit_at n k p" "S = component n k p" by (auto simp: hit_cluster_sets_def)
    then have "p \<in> set (grid_coords n)"
      using grid_coords_mem[of "fst p" "snd p" n] by (simp add: hit_at_def)
    then have "p \<in> set (fst ?st)" using all p(1) by blast
    then obtain c where c: "c \<in> set (hit_clusters n k)" "p \<in> set (fst c)" using vis by auto
    with cls obtain q where "set (fst c) = component n k q" by (auto simp: hit_cluster_sets_def)
    then have "set (fst c) = S" using c(2) p(2) component_eq by blast
    then show "S \<in> set (map (set \<circ> fst) (hit_clusters n k))" using c(1) by force
  qed
  from sub sup dist cls show ?thesis by blast
qed

section \<open>Placements\<close>

lemma placement_cells_mem:
  "(r', c') \<in> set (placement_cells r c len horizontal) \<longleftrightarrow>
     (\<exists>i. 0 \<le> i \<and> i < len \<and> r' = r + (if horizontal then 0 else i) \<and>
          c' = c + (if horizontal then i else 0))"
  by (auto simp: placement_cells_def py_range_mem)

lemma origins_mem:
  "(r, c) \<in> set (origins n len horizontal) \<longleftrightarrow>
     (if horizontal then 0 \<le> r \<and> r < n \<and> 0 \<le> c \<and> c < n - len + 1
      else 0 \<le> r \<and> r < n - len + 1 \<and> 0 \<le> c \<and> c < n)"
  by (force simp: origins_def py_range_set)

lemma origin_cells_in_grid:
  assumes "(r, c) \<in> set (origins n len horizontal)"
    "(r', c') \<in> set (placement_cells r c len horizontal)"
  shows "in_grid n r' c'"
  using assms by (auto simp: origins_mem placement_cells_mem in_grid_def split: if_splits)

lemma valid_placement_iff:
  "valid_placement_on_knowledge n k r c len horizontal \<longleftrightarrow>
     (\<forall>q \<in> set (placement_cells r c len horizontal).
        in_grid n (fst q) (snd q) \<and> cell k (fst q) (snd q) \<noteq> MISS)"
  by (auto simp: valid_placement_on_knowledge_def placement_cells_def list_all_iff Let_def
      in_grid_def)

lemma consistent_loop_iff:
  "0 \<le> m \<Longrightarrow> m \<le> 1 \<Longrightarrow>
   consistent_loop cs cls len horizontal m \<longleftrightarrow>
     (\<forall>cl \<in> set (filter (intersects cs) cls). cluster_fits cs len horizontal cl) \<and>
     m + int (length (filter (intersects cs) cls)) \<le> 1"
proof (induction cls arbitrary: m)
  case Nil
  then show ?case by simp
next
  case (Cons cl cls)
  obtain cmp orient where cl: "cl = (cmp, orient)" by (cases cl)
  show ?case
  proof (cases "intersects cs cl")
    case False
    then have "\<not> (\<exists>x \<in> set cs. x \<in> set cmp)" by (auto simp: intersects_def cl)
    then show ?thesis using False Cons cl by simp
  next
    case True
    then have ex: "\<exists>x \<in> set cs. x \<in> set cmp" by (auto simp: intersects_def cl)
    show ?thesis
    proof (cases "cluster_fits cs len horizontal cl \<and> m = 0")
      case fits: True
      then have "consistent_loop cs (cl # cls) len horizontal m =
                 consistent_loop cs cls len horizontal 1"
        using ex by (auto simp: cl cluster_fits_def)
      also have "\<dots> \<longleftrightarrow>
          (\<forall>cl \<in> set (filter (intersects cs) cls). cluster_fits cs len horizontal cl) \<and>
          1 + int (length (filter (intersects cs) cls)) \<le> 1"
        by (rule Cons.IH) simp_all
      finally show ?thesis using True fits by simp
    next
      case nofit: False
      then have "\<not> consistent_loop cs (cl # cls) len horizontal m"
        using ex Cons.prems by (auto simp: cl cluster_fits_def)
      moreover have "\<not> ((\<forall>cl \<in> set (filter (intersects cs) (cl # cls)).
                          cluster_fits cs len horizontal cl) \<and>
                       m + int (length (filter (intersects cs) (cl # cls))) \<le> 1)"
        using nofit True Cons.prems by auto
      ultimately show ?thesis by blast
    qed
  qed
qed

lemma counts_listed_code:
  assumes "(r, c) \<in> set (origins n len horizontal)"
  shows "valid_placement_on_knowledge n k r c len horizontal \<and>
         placement_consistent_with_clusters (placement_cells r c len horizontal)
           (hit_clusters n k) len horizontal
         \<longleftrightarrow> counts_listed n k r c len horizontal"
proof -
  have v: "valid_placement_on_knowledge n k r c len horizontal \<longleftrightarrow>
           (\<forall>q \<in> set (placement_cells r c len horizontal). cell k (fst q) (snd q) \<noteq> MISS)"
    using origin_cells_in_grid[OF assms] by (auto simp: valid_placement_iff)
  show ?thesis
    unfolding v placement_consistent_with_clusters_def counts_listed_def Let_def
    using consistent_loop_iff[of 0 "placement_cells r c len horizontal" "hit_clusters n k" len horizontal]
    by (auto simp: cluster_fits_def)
qed

lemma cluster_orient_set: "cluster_orient cmp = set_orient (set cmp)"
  by (simp add: cluster_orient_def set_orient_def)

lemma distinct_filter_le1:
  assumes "distinct xs"
  shows "length (filter Q xs) \<le> 1 \<longleftrightarrow> (\<forall>x \<in> set xs. \<forall>y \<in> set xs. Q x \<and> Q y \<longrightarrow> x = y)"
  using assms
proof (induction xs)
  case Nil
  then show ?case by simp
next
  case (Cons a xs)
  show ?case
  proof (cases "Q a")
    case True
    have "length (filter Q (a # xs)) \<le> 1 \<longleftrightarrow> filter Q xs = []" using True by simp
    also have "\<dots> \<longleftrightarrow> (\<forall>x \<in> set xs. \<not> Q x)" by (simp add: filter_empty_conv)
    also have "\<dots> \<longleftrightarrow> (\<forall>x \<in> set (a # xs). \<forall>y \<in> set (a # xs). Q x \<and> Q y \<longrightarrow> x = y)"
      using True Cons.prems by auto
    finally show ?thesis .
  next
    case False
    then show ?thesis using Cons by auto
  qed
qed

lemma counts_listed_iff:
  "counts_listed n k r c len horizontal \<longleftrightarrow> placement_counts n k r c len horizontal"
proof -
  let ?cs = "placement_cells r c len horizontal"
  let ?L = "hit_clusters n k"
  let ?Q = "\<lambda>S. S \<inter> set ?cs \<noteq> {}"
  note hc = hit_clusters_correct[of n k]
  from hc have img: "(set \<circ> fst) ` set ?L = hit_cluster_sets n k"
    and dist: "distinct (map (set \<circ> fst) ?L)"
    and ori: "\<forall>cl \<in> set ?L. snd cl = set_orient (set (fst cl))"
    by (auto simp: cluster_orient_set)
  have int: "intersects ?cs cl \<longleftrightarrow> ?Q (set (fst cl))" for cl
    by (auto simp: intersects_def)
  have A: "(\<forall>cl \<in> set (filter (intersects ?cs) ?L). P (set (fst cl)) (snd cl)) \<longleftrightarrow>
           (\<forall>S \<in> hit_cluster_sets n k. ?Q S \<longrightarrow> P S (set_orient S))" for P
  proof
    assume l: "\<forall>cl \<in> set (filter (intersects ?cs) ?L). P (set (fst cl)) (snd cl)"
    show "\<forall>S \<in> hit_cluster_sets n k. ?Q S \<longrightarrow> P S (set_orient S)"
    proof (intro ballI impI)
      fix S assume "S \<in> hit_cluster_sets n k" "?Q S"
      then have "S \<in> (set \<circ> fst) ` set ?L" unfolding img by simp
      then obtain cl where cl: "cl \<in> set ?L" "S = set (fst cl)" by auto
      have "intersects ?cs cl" using \<open>?Q S\<close> cl(2) by (simp add: int)
      then have "cl \<in> set (filter (intersects ?cs) ?L)" using cl(1) by simp
      then have "P (set (fst cl)) (snd cl)" using l by blast
      moreover have "snd cl = set_orient (set (fst cl))" using ori cl(1) by blast
      ultimately show "P S (set_orient S)" using cl(2) by simp
    qed
  next
    assume r: "\<forall>S \<in> hit_cluster_sets n k. ?Q S \<longrightarrow> P S (set_orient S)"
    show "\<forall>cl \<in> set (filter (intersects ?cs) ?L). P (set (fst cl)) (snd cl)"
    proof
      fix cl assume "cl \<in> set (filter (intersects ?cs) ?L)"
      then have cl: "cl \<in> set ?L" "?Q (set (fst cl))" by (auto simp: int)
      then have "(set \<circ> fst) cl \<in> (set \<circ> fst) ` set ?L" by (intro imageI)
      then have "set (fst cl) \<in> hit_cluster_sets n k" unfolding img by simp
      then have "P (set (fst cl)) (set_orient (set (fst cl)))" using r cl(2) by blast
      moreover have "snd cl = set_orient (set (fst cl))" using ori cl(1) by blast
      ultimately show "P (set (fst cl)) (snd cl)" by simp
    qed
  qed
  have len: "length (filter (intersects ?cs) ?L) = length (filter ?Q (map (set \<circ> fst) ?L))"
    using int by (simp add: filter_map o_def fun_eq_iff cong: filter_cong)
  have B: "length (filter (intersects ?cs) ?L) \<le> 1 \<longleftrightarrow>
      (\<forall>S \<in> hit_cluster_sets n k. \<forall>T \<in> hit_cluster_sets n k. ?Q S \<and> ?Q T \<longrightarrow> S = T)"
    unfolding len distinct_filter_le1[OF dist, of ?Q] set_map img by (rule refl)
  show ?thesis
    unfolding counts_listed_def placement_counts_def Let_def B
      A[of "\<lambda>S d. int (card S) \<le> len \<and> S \<subseteq> set ?cs"]
      A[of "\<lambda>S d. (d = Some Horizontal \<longrightarrow> horizontal) \<and> (d = Some Vertical \<longrightarrow> \<not> horizontal)"]
    by simp
qed

lemma placement_counts_code:
  assumes "(r, c) \<in> set (origins n len horizontal)"
  shows "valid_placement_on_knowledge n k r c len horizontal \<and>
         placement_consistent_with_clusters (placement_cells r c len horizontal)
           (hit_clusters n k) len horizontal
         \<longleftrightarrow> placement_counts n k r c len horizontal"
  using counts_listed_code[OF assms, of k] counts_listed_iff[of n k r c len horizontal]
  by simp

lemma distinct_placement_cells: "distinct (placement_cells r c len horizontal)"
  by (auto simp: placement_cells_def distinct_map distinct_py_range inj_on_def)

lemma filter_eq_le1: "distinct (map f xs) \<Longrightarrow> length (filter (\<lambda>i. f i = q) xs) \<le> 1"
proof (induction xs)
  case Nil
  then show ?case by simp
next
  case (Cons a xs)
  show ?case
  proof (cases "f a = q")
    case True
    have "f a \<notin> f ` set xs" using Cons.prems by simp
    then have "\<forall>x \<in> set xs. f x \<noteq> q" using True by blast
    then have "filter (\<lambda>i. f i = q) xs = []"
      by (simp add: filter_empty_conv)
    then show ?thesis using True by simp
  next
    case False
    then show ?thesis using Cons by simp
  qed
qed

lemma place_step_square:
  "square_grid n heat \<Longrightarrow> square_grid n (place_step n k cls len horizontal p heat)"
  by (simp add: place_step_def Let_def fold_add_cell_square)

lemma place_step_cell:
  assumes sq: "square_grid n heat" and orig: "(r, c) \<in> set (origins n len horizontal)"
    and ing: "in_grid n r' c'"
  shows "cell (place_step n k (hit_clusters n k) len horizontal (r, c) heat) r' c' =
         cell heat r' c' +
           (if placement_counts n k r c len horizontal \<and>
               (r', c') \<in> set (placement_cells r c len horizontal) then 1 else 0)"
proof (cases "placement_counts n k r c len horizontal")
  case False
  then show ?thesis
    using placement_counts_code[OF orig, of k] by (auto simp: place_step_def Let_def)
next
  case True
  let ?fr = "\<lambda>i. r + (if horizontal then 0 else i)" and ?fc = "\<lambda>i. c + (if horizontal then i else 0)"
  have step: "place_step n k (hit_clusters n k) len horizontal (r, c) heat =
      fold (\<lambda>i h. add_cell h (?fr i) (?fc i) 1) (py_range len) heat"
    using True placement_counts_code[OF orig, of k] by (auto simp: place_step_def Let_def)
  have inb: "\<forall>i \<in> set (py_range len). in_grid n (?fr i) (?fc i)"
    using origin_cells_in_grid[OF orig] by (auto simp: placement_cells_def)
  have cnt: "int (length (filter (\<lambda>i. ?fr i = r' \<and> ?fc i = c') (py_range len))) =
        (if (r', c') \<in> set (placement_cells r c len horizontal) then 1 else 0)"
  proof -
    have "distinct (map (\<lambda>i. (?fr i, ?fc i)) (py_range len))"
      using distinct_placement_cells[of r c len horizontal] by (simp add: placement_cells_def)
    from filter_eq_le1[OF this, of "(r', c')"]
    have le: "length (filter (\<lambda>i. ?fr i = r' \<and> ?fc i = c') (py_range len)) \<le> 1"
      by simp
    have "(r', c') \<in> set (placement_cells r c len horizontal) \<longleftrightarrow>
          filter (\<lambda>i. ?fr i = r' \<and> ?fc i = c') (py_range len) \<noteq> []"
      by (auto simp: placement_cells_def filter_empty_conv)
    then show ?thesis using le
      by (cases "filter (\<lambda>i. ?fr i = r' \<and> ?fc i = c') (py_range len)") auto
  qed
  show ?thesis
    unfolding step
    using fold_add_cell_count[OF sq inb, of r' c' 1] ing True cnt
    by (simp add: in_grid_def)
qed

lemma fold_place_step_square:
  "square_grid n heat \<Longrightarrow> square_grid n (fold (place_step n k cls len horizontal) ps heat)"
  by (induction ps arbitrary: heat) (simp_all add: place_step_square)

lemma fold_place_step_cell:
  assumes "square_grid n heat" "set ps \<subseteq> set (origins n len horizontal)" "in_grid n r' c'"
  shows "cell (fold (place_step n k (hit_clusters n k) len horizontal) ps heat) r' c' =
         cell heat r' c' +
           int (length (filter (\<lambda>p. placement_counts n k (fst p) (snd p) len horizontal \<and>
                  (r', c') \<in> set (placement_cells (fst p) (snd p) len horizontal)) ps))"
  using assms
proof (induction ps arbitrary: heat)
  case Nil
  then show ?case by simp
next
  case (Cons p ps)
  obtain r c where p: "p = (r, c)" by (cases p)
  have orig: "(r, c) \<in> set (origins n len horizontal)" using Cons.prems(2) p by simp
  have sq: "square_grid n (place_step n k (hit_clusters n k) len horizontal p heat)"
    using Cons.prems(1) by (rule place_step_square)
  show ?case
    using Cons.IH[OF sq _ Cons.prems(3)] Cons.prems(2)
      place_step_cell[OF Cons.prems(1) orig Cons.prems(3), of k]
    by (simp add: p)
qed

lemma ship_step_square: "square_grid n heat \<Longrightarrow> square_grid n (ship_step n k cls len heat)"
  by (simp add: ship_step_def fold_place_step_square)

lemma ship_step_cell:
  assumes "square_grid n heat" "in_grid n r' c'"
  shows "cell (ship_step n k (hit_clusters n k) len heat) r' c' =
         cell heat r' c' + int (length (covering_placements n k len True (r', c'))) +
           int (length (covering_placements n k len False (r', c')))"
proof -
  let ?h1 = "fold (place_step n k (hit_clusters n k) len True) (origins n len True) heat"
  have sq1: "square_grid n ?h1" using assms(1) by (rule fold_place_step_square)
  have "cell ?h1 r' c' = cell heat r' c' + int (length (covering_placements n k len True (r', c')))"
    unfolding covering_placements_def
    by (rule fold_place_step_cell[OF assms(1) subset_refl assms(2)])
  moreover have "cell (fold (place_step n k (hit_clusters n k) len False) (origins n len False) ?h1) r' c' =
      cell ?h1 r' c' + int (length (covering_placements n k len False (r', c')))"
    unfolding covering_placements_def
    by (rule fold_place_step_cell[OF sq1 subset_refl assms(2)])
  ultimately show ?thesis by (simp add: ship_step_def)
qed

lemma base_heat_square: "square_grid n (base_heat n k fleet)"
proof -
  have "square_grid n (fold (ship_step n k cls) fleet h)" if "square_grid n h" for h cls
    using that by (induction fleet arbitrary: h) (simp_all add: ship_step_square)
  then show ?thesis by (simp add: base_heat_def square_zero_grid)
qed

lemma base_heat_cell:
  assumes "in_grid n r' c'"
  shows "cell (base_heat n k fleet) r' c' =
         (\<Sum>len\<leftarrow>fleet. int (length (covering_placements n k len True (r', c'))) +
                       int (length (covering_placements n k len False (r', c'))))"
proof -
  have "cell (fold (ship_step n k (hit_clusters n k)) fleet h) r' c' =
        cell h r' c' +
        (\<Sum>len\<leftarrow>fleet. int (length (covering_placements n k len True (r', c'))) +
                       int (length (covering_placements n k len False (r', c'))))"
    if "square_grid n h" for h
    using that
  proof (induction fleet arbitrary: h)
    case Nil
    then show ?case by simp
  next
    case (Cons len fleet)
    show ?case
      using Cons.IH[OF ship_step_square[OF Cons.prems]] ship_step_cell[OF Cons.prems assms, of k len]
      by simp
  qed
  from this[OF square_zero_grid] show ?thesis
    using assms by (simp add: base_heat_def cell_zero_grid)
qed

section \<open>Target candidates\<close>

lemma fold_if_filter:
  "fold (\<lambda>q st. if C q then f q st else st) qs st = fold f (filter C qs) st"
  by (induction qs arbitrary: st) simp_all

lemma fold_nbrs_emit:
  "fold (\<lambda>p st. fold (\<lambda>q st. if open_cell n k q then emit q st else st) (nbrs4 p) st) cmp st =
   fold emit (filter (open_cell n k) (concat (map nbrs4 cmp))) st"
  by (induction cmp arbitrary: st) (simp_all add: fold_if_filter)

lemma hit_at_bounds: "hit_at n k p \<Longrightarrow> 0 \<le> fst p \<and> fst p < n \<and> 0 \<le> snd p \<and> snd p < n"
  by (simp add: hit_at_def in_grid_def)

lemma cluster_step_emit:
  assumes "cluster_ok n k cl"
  shows "cluster_step it n k cl st = fold emit (listed_targets it n k cl) st"
proof -
  obtain cmp orient where cl: "cl = (cmp, orient)" by (cases cl)
  from assms have ne: "cmp \<noteq> []" and hits: "\<forall>p \<in> set cmp. hit_at n k p"
    by (auto simp: cluster_ok_def cl)
  have hd_in: "hd cmp \<in> set cmp" using ne by simp
  have fin: "finite (snd ` set cmp)" "snd ` set cmp \<noteq> {}" "finite (fst ` set cmp)" "fst ` set cmp \<noteq> {}"
    using ne by auto
  have row: "0 \<le> fst (hd cmp)" "fst (hd cmp) < n" and col: "0 \<le> snd (hd cmp)" "snd (hd cmp) < n"
    using hits hd_in hit_at_bounds by blast+
  have cb: "\<forall>x \<in> snd ` set cmp. 0 \<le> x \<and> x < n" and rb: "\<forall>x \<in> fst ` set cmp. 0 \<le> x \<and> x < n"
    using hits hit_at_bounds by blast+
  have minc: "0 \<le> Min (snd ` set cmp)" "Min (snd ` set cmp) < n"
    using Min_in[OF fin(1,2)] cb by blast+
  have maxc: "0 \<le> Max (snd ` set cmp)" "Max (snd ` set cmp) < n"
    using Max_in[OF fin(1,2)] cb by blast+
  have minr: "0 \<le> Min (fst ` set cmp)" "Min (fst ` set cmp) < n"
    using Min_in[OF fin(3,4)] rb by blast+
  have maxr: "0 \<le> Max (fst ` set cmp)" "Max (fst ` set cmp) < n"
    using Max_in[OF fin(3,4)] rb by blast+
  show ?thesis
  proof (cases orient)
    case None
    have "(\<lambda>p st. fold (\<lambda>q st. if in_grid n (fst q) (snd q) \<and> cell k (fst q) (snd q) = - 1
                                then emit q st else st) (nbrs4 p) st) =
          (\<lambda>p st. fold (\<lambda>q st. if open_cell n k q then emit q st else st) (nbrs4 p) st)"
      by (simp add: open_cell_def)
    then show ?thesis
      using ne None fold_nbrs_emit[of n k "it cmp" st]
      by (simp add: cluster_step_def listed_targets_def cl Let_def)
  next
    case (Some ori)
    show ?thesis
    proof (cases ori)
      case Horizontal
      have a: "open_cell n k (fst (hd cmp), Min (snd ` set cmp) - 1) \<longleftrightarrow>
            Min (snd ` set cmp) - 1 \<ge> 0 \<and> cell k (fst (hd cmp)) (Min (snd ` set cmp) - 1) = - 1"
        using row minc by (auto simp: open_cell_def in_grid_def)
      have b: "open_cell n k (fst (hd cmp), Max (snd ` set cmp) + 1) \<longleftrightarrow>
            Max (snd ` set cmp) + 1 < n \<and> cell k (fst (hd cmp)) (Max (snd ` set cmp) + 1) = - 1"
        using row maxc by (auto simp: open_cell_def in_grid_def)
      show ?thesis
        using ne Some Horizontal
        by (simp add: cluster_step_def listed_targets_def cl Let_def a b)
    next
      case Vertical
      have a: "open_cell n k (Min (fst ` set cmp) - 1, snd (hd cmp)) \<longleftrightarrow>
            Min (fst ` set cmp) - 1 \<ge> 0 \<and> cell k (Min (fst ` set cmp) - 1) (snd (hd cmp)) = - 1"
        using col minr by (auto simp: open_cell_def in_grid_def)
      have b: "open_cell n k (Max (fst ` set cmp) + 1, snd (hd cmp)) \<longleftrightarrow>
            Max (fst ` set cmp) + 1 < n \<and> cell k (Max (fst ` set cmp) + 1) (snd (hd cmp)) = - 1"
        using col maxr by (auto simp: open_cell_def in_grid_def)
      show ?thesis
        using ne Some Vertical
        by (simp add: cluster_step_def listed_targets_def cl Let_def a b)
    qed
  qed
qed

lemma fold_emit:
  assumes "set (snd st) = set (fst st)" "distinct (fst st)"
  shows "set (snd (fold emit xs st)) = set (fst (fold emit xs st)) \<and>
         distinct (fst (fold emit xs st)) \<and>
         set (fst (fold emit xs st)) = set (fst st) \<union> set xs"
  using assms
proof (induction xs arbitrary: st)
  case Nil
  then show ?case by simp
next
  case (Cons x xs)
  obtain cand seen where st: "st = (cand, seen)" by (cases st)
  have "set (snd (emit x st)) = set (fst (emit x st))" "distinct (fst (emit x st))"
    "set (fst (emit x st)) = insert x (set (fst st))"
    using Cons.prems by (auto simp: emit_def st)
  with Cons.IH[of "emit x st"] show ?case by auto
qed

lemma fold_cluster_step:
  assumes "\<forall>cl \<in> set cls. cluster_ok n k cl"
  shows "fold (cluster_step it n k) cls st =
         fold emit (concat (map (listed_targets it n k) cls)) st"
  using assms
proof (induction cls arbitrary: st)
  case Nil
  then show ?case by simp
next
  case (Cons cl cls)
  then show ?case by (simp add: cluster_step_emit)
qed

lemma target_candidates_emit:
  "target_candidates it n k =
     fst (fold emit (concat (map (listed_targets it n k) (hit_clusters n k))) ([], []))"
  unfolding target_candidates_def
  by (simp only: fold_cluster_step[OF hit_clusters_ok])

lemma target_candidates_set:
  "set (target_candidates it n k) =
     (\<Union>cl \<in> set (hit_clusters n k). set (listed_targets it n k cl))"
  using fold_emit[of "([], [])" "concat (map (listed_targets it n k) (hit_clusters n k))"]
  by (simp add: target_candidates_emit)

lemma target_candidates_distinct: "distinct (target_candidates it n k)"
  using fold_emit[of "([], [])" "concat (map (listed_targets it n k) (hit_clusters n k))"]
  by (simp add: target_candidates_emit)

lemma listed_targets_open:
  assumes "q \<in> set (listed_targets it n k cl)"
  shows "open_cell n k q"
proof -
  have "\<exists>xs. listed_targets it n k cl = filter (open_cell n k) xs"
    unfolding listed_targets_def
    by (cases "snd cl"; cases "the (snd cl)") (simp_all del: filter.simps, blast+)
  then obtain xs where "listed_targets it n k cl = filter (open_cell n k) xs" ..
  with assms show ?thesis by simp
qed

lemma target_candidates_open:
  assumes "q \<in> set (target_candidates it n k)"
  shows "open_cell n k q"
proof -
  from assms obtain cl where "q \<in> set (listed_targets it n k cl)"
    unfolding target_candidates_set by blast
  then show ?thesis by (rule listed_targets_open)
qed

lemma listed_targets_set:
  assumes ok: "cluster_ok n k cl" and d: "distinct (fst cl)" and it: "set_iteration it"
  shows "set (listed_targets it n k cl) = cluster_targets n k (set (fst cl))"
proof -
  obtain cmp orient where cl: "cl = (cmp, orient)" by (cases cl)
  from ok have ne: "cmp \<noteq> []" and o: "orient = set_orient (set cmp)"
    by (auto simp: cluster_ok_def cl cluster_orient_set)
  have hd_in: "hd cmp \<in> set cmp" using ne by simp
  have its: "set (it cmp) = set cmp" using it d by (simp add: set_iteration_def cl)
  show ?thesis
  proof (cases orient)
    case None
    then show ?thesis
      using o its by (auto simp: listed_targets_def cluster_targets_def cl)
  next
    case (Some ori)
    show ?thesis
    proof (cases ori)
      case Horizontal
      then have "card (fst ` set cmp) = 1"
        using Some o by (auto simp: set_orient_def split: if_splits)
      then obtain x where "fst ` set cmp = {x}" by (auto simp: card_1_singleton_iff)
      moreover have "fst (hd cmp) \<in> fst ` set cmp" using hd_in by (rule imageI)
      ultimately have rows: "fst ` set cmp = {fst (hd cmp)}" by auto
      show ?thesis
        using Some Horizontal o
        by (auto simp: listed_targets_def cluster_targets_def cl rows)
    next
      case Vertical
      then have "card (snd ` set cmp) = 1"
        using Some o by (auto simp: set_orient_def split: if_splits)
      then obtain x where "snd ` set cmp = {x}" by (auto simp: card_1_singleton_iff)
      moreover have "snd (hd cmp) \<in> snd ` set cmp" using hd_in by (rule imageI)
      ultimately have cols: "snd ` set cmp = {snd (hd cmp)}" by auto
      show ?thesis
        using Some Vertical o
        by (auto simp: listed_targets_def cluster_targets_def cl cols)
    qed
  qed
qed

lemma target_candidates_clusters:
  assumes "set_iteration it"
  shows "set (target_candidates it n k) = \<Union> (cluster_targets n k ` hit_cluster_sets n k)"
proof -
  note hc = hit_clusters_correct[of n k]
  from hc have img: "(set \<circ> fst) ` set (hit_clusters n k) = hit_cluster_sets n k" by simp
  have "set (listed_targets it n k cl) = cluster_targets n k ((set \<circ> fst) cl)"
    if "cl \<in> set (hit_clusters n k)" for cl
    using listed_targets_set[OF _ _ assms, of n k cl] hit_clusters_ok[of n k] hc that by simp
  then have "set (target_candidates it n k) =
      (\<Union>cl \<in> set (hit_clusters n k). cluster_targets n k ((set \<circ> fst) cl))"
    unfolding target_candidates_set by blast
  also have "\<dots> = \<Union> (cluster_targets n k ` ((set \<circ> fst) ` set (hit_clusters n k)))"
    by blast
  finally show ?thesis unfolding img .
qed

lemma set_iteration_short:
  assumes "set_iteration it" "length xs \<le> 1"
  shows "it xs = xs"
proof (cases xs)
  case Nil
  then have "set (it xs) = {}" using assms(1) by (simp add: set_iteration_def)
  then show ?thesis using Nil by simp
next
  case (Cons x ys)
  then have xs: "xs = [x]" using assms(2) by simp
  then have "distinct (it xs)" "set (it xs) = {x}" using assms(1) by (simp_all add: set_iteration_def)
  then have "length (it xs) = 1" using distinct_card[of "it xs"] by simp
  then obtain y where "it xs = [y]" by (cases "it xs") auto
  then show ?thesis using \<open>set (it xs) = {x}\<close> xs by simp
qed

lemma cluster_step_any_order:
  assumes "snd cl \<noteq> None \<or> (set_iteration it \<and> length (fst cl) \<le> 1)"
  shows "cluster_step it n k cl = cluster_step (\<lambda>xs. xs) n k cl"
proof (cases "snd cl")
  case None
  then have "it (fst cl) = fst cl" using assms set_iteration_short by blast
  then show ?thesis using None by (simp add: cluster_step_def Let_def fun_eq_iff)
next
  case (Some ori)
  then show ?thesis by (simp add: cluster_step_def Let_def fun_eq_iff)
qed

lemma target_candidates_any_order:
  assumes "\<forall>cl \<in> set (hit_clusters n k). snd cl \<noteq> None \<or> (set_iteration it \<and> length (fst cl) \<le> 1)"
  shows "target_candidates it n k = target_candidates (\<lambda>xs. xs) n k"
proof -
  have "fold (cluster_step it n k) cls st = fold (cluster_step (\<lambda>xs. xs) n k) cls st"
    if "\<forall>cl \<in> set cls. snd cl \<noteq> None \<or> (set_iteration it \<and> length (fst cl) \<le> 1)" for cls st
    using that by (induction cls arbitrary: st) (simp_all add: cluster_step_any_order)
  from this[OF assms] show ?thesis by (simp only: target_candidates_def)
qed

lemma set_iteration_id: "set_iteration (\<lambda>xs. xs)"
  by (simp add: set_iteration_def)

lemma grid_covers_knowledge_of: "grid_covers n (knowledge_of n hs ms)"
  by (simp add: grid_covers_def knowledge_of_def py_range_length list_all_iff)

lemma scenario_b_clusters: "hit_clusters 10 (knowledge_of 10 [(4, 4)] []) = [([(4, 4)], None)]"
  by code_simp

lemma scenario_b_listed:
  "target_candidates (\<lambda>xs. xs) 10 (knowledge_of 10 [(4, 4)] []) = [(5, 4), (3, 4), (4, 5), (4, 3)]"
  by code_simp

lemma scenario_b:
  assumes "set_iteration it"
  shows "target_candidates it 10 (knowledge_of 10 [(4, 4)] []) = [(5, 4), (3, 4), (4, 5), (4, 3)]"
  using target_candidates_any_order[of 10 "knowledge_of 10 [(4, 4)] []" it] assms
  by (simp add: scenario_b_clusters scenario_b_listed)

lemma scenario_c_clusters:
  "hit_clusters 10 (knowledge_of 10 [(4, 4), (4, 5)] []) = [([(4, 4), (4, 5)], Some Horizontal)]"
  by code_simp

lemma scenario_c_listed:
  "target_candidates (\<lambda>xs. xs) 10 (knowledge_of 10 [(4, 4), (4, 5)] []) = [(4, 3), (4, 6)]"
  by code_simp

lemma scenario_c:
  "target_candidates it 10 (knowledge_of 10 [(4, 4), (4, 5)] []) = [(4, 3), (4, 6)]"
  using target_candidates_any_order[of 10 "knowledge_of 10 [(4, 4), (4, 5)] []" it]
  by (simp add: scenario_c_clusters scenario_c_listed)

lemma two_hits_listed:
  "target_candidates (\<lambda>xs. xs) 10 (knowledge_of 10 [(4, 4), (4, 6)] []) =
     [(5, 4), (3, 4), (4, 5), (4, 3), (5, 6), (3, 6), (4, 7)]"
  by code_simp

section \<open>Shape and sign of the heat map\<close>

lemma base_heat_nonneg: "nonneg_grid n (base_heat n k fleet)"
  unfolding nonneg_grid_def
  by (auto simp: base_heat_cell intro!: sum_list_nonneg)

lemma boost_step_alt:
  "boost_step n k p heat =
     (if cell k (fst p) (snd p) = HIT
      then fold (\<lambda>q h. add_cell h (fst q) (snd q) 3) (filter (open_cell n k) (nbrs4 p)) heat
      else heat)"
proof -
  have "(\<lambda>q h. if in_grid n (fst q) (snd q) \<and> cell k (fst q) (snd q) = - 1
                then add_cell h (fst q) (snd q) 3 else h) =
        (\<lambda>q h. if open_cell n k q then add_cell h (fst q) (snd q) 3 else h)"
    by (simp add: open_cell_def)
  then show ?thesis
    by (simp add: boost_step_def fold_if_filter)
qed

lemma boost_step_square: "square_grid n h \<Longrightarrow> square_grid n (boost_step n k p h)"
  by (simp add: boost_step_alt fold_add_cell_square)

lemma boost_step_ge:
  assumes "square_grid n h" "in_grid n r c"
  shows "cell h r c \<le> cell (boost_step n k p h) r c"
proof (cases "cell k (fst p) (snd p) = HIT")
  case True
  have "\<forall>q \<in> set (filter (open_cell n k) (nbrs4 p)). in_grid n (fst q) (snd q)"
    by (simp add: open_cell_def)
  from fold_add_cell_count[OF assms(1) this, of r c 3] assms(2)
  show ?thesis using True by (simp add: boost_step_alt in_grid_def)
next
  case False
  then show ?thesis by (simp add: boost_step_alt)
qed

lemma fold_boost_step:
  assumes "square_grid n h"
  shows "square_grid n (fold (boost_step n k) ps h) \<and>
         (\<forall>r c. in_grid n r c \<longrightarrow> cell h r c \<le> cell (fold (boost_step n k) ps h) r c)"
  using assms
proof (induction ps arbitrary: h)
  case Nil
  then show ?case by simp
next
  case (Cons p ps)
  have sq: "square_grid n (boost_step n k p h)" using Cons.prems by (rule boost_step_square)
  show ?case
    using Cons.IH[OF sq] boost_step_ge[OF Cons.prems, of _ _ k p]
    by (fastforce simp only: fold_simps o_apply)
qed

lemma boosted_heat_square: "square_grid n (boosted_heat n k fleet)"
  using fold_boost_step[OF base_heat_square, of n k "grid_coords n" k fleet]
  by (simp add: boosted_heat_def)

lemma boosted_heat_nonneg: "nonneg_grid n (boosted_heat n k fleet)"
  using fold_boost_step[OF base_heat_square, of n k "grid_coords n" k fleet]
    base_heat_nonneg[of n k fleet]
  unfolding nonneg_grid_def boosted_heat_def by force

lemma quarter_nonneg: "0 \<le> h \<Longrightarrow> 0 \<le> quarter h"
  by (simp add: quarter_def)

lemma prune_step_square: "square_grid n h \<Longrightarrow> square_grid n (prune_step p h)"
  by (simp add: prune_step_def square_set_cell)

lemma prune_step_cell:
  assumes "square_grid n h" "in_grid n (fst p) (snd p)" "in_grid n r c"
  shows "cell (prune_step p h) r c =
         (if (r, c) = p \<and> (r + c) mod 2 = 1 then quarter (cell h r c) else cell h r c)"
  using cell_set_cell[OF assms(1,2), of r c "quarter (cell h (fst p) (snd p))"] assms(3)
  by (cases p) (auto simp: prune_step_def in_grid_def)

lemma fold_prune_square: "square_grid n h \<Longrightarrow> square_grid n (fold prune_step ps h)"
  by (induction ps arbitrary: h) (simp_all add: prune_step_square)

lemma fold_prune_cell:
  assumes "square_grid n h" "distinct ps" "\<forall>p \<in> set ps. in_grid n (fst p) (snd p)" "in_grid n r c"
  shows "cell (fold prune_step ps h) r c =
         (if (r, c) \<in> set ps \<and> (r + c) mod 2 = 1 then quarter (cell h r c) else cell h r c)"
  using assms
proof (induction ps arbitrary: h)
  case Nil
  then show ?case by simp
next
  case (Cons p ps)
  have sq: "square_grid n (prune_step p h)" using Cons.prems(1) by (rule prune_step_square)
  have ing: "in_grid n (fst p) (snd p)" using Cons.prems(3) by simp
  have "cell (fold prune_step ps (prune_step p h)) r c =
        (if (r, c) \<in> set ps \<and> (r + c) mod 2 = 1 then quarter (cell (prune_step p h) r c)
         else cell (prune_step p h) r c)"
    using Cons.IH[OF sq] Cons.prems by simp
  then show ?case
    using prune_step_cell[OF Cons.prems(1) ing Cons.prems(4)] Cons.prems(2)
    by auto
qed

lemma grid_coords_in_grid: "\<forall>p \<in> set (grid_coords n). in_grid n (fst p) (snd p)"
  using grid_coords_mem by auto

lemma pruned_cell:
  assumes "square_grid n h" "in_grid n r c"
  shows "cell (fold prune_step (grid_coords n) h) r c =
         (if (r + c) mod 2 = 1 then quarter (cell h r c) else cell h r c)"
  using fold_prune_cell[OF assms(1) distinct_grid_coords grid_coords_in_grid assms(2)] assms(2)
  by (simp add: grid_coords_mem)

lemma heatmap_square: "square_grid (ai_size a) (heatmap a k remaining)"
  by (simp add: heatmap_def Let_def boosted_heat_square fold_prune_square)

lemma heatmap_nonneg: "nonneg_grid (ai_size a) (heatmap a k remaining)"
proof -
  let ?n = "ai_size a"
  have "nonneg_grid ?n (fold prune_step (grid_coords ?n) (boosted_heat ?n k fleet))" for fleet
    unfolding nonneg_grid_def
    using pruned_cell[OF boosted_heat_square] boosted_heat_nonneg[of ?n k fleet]
    by (auto simp: nonneg_grid_def quarter_nonneg)
  then show ?thesis
    by (simp add: heatmap_def Let_def boosted_heat_nonneg)
qed

lemma any_hit_iff: "any_hit n k \<longleftrightarrow> (\<exists>r c. in_grid n r c \<and> cell k r c = HIT)"
proof
  assume "any_hit n k"
  then obtain p where "p \<in> set (grid_coords n)" "cell k (fst p) (snd p) = HIT"
    by (auto simp: any_hit_def list_ex_iff)
  then show "\<exists>r c. in_grid n r c \<and> cell k r c = HIT"
    using grid_coords_mem[of "fst p" "snd p" n] by auto
next
  assume "\<exists>r c. in_grid n r c \<and> cell k r c = HIT"
  then obtain r c where "in_grid n r c" "cell k r c = HIT" by blast
  then have "(r, c) \<in> set (grid_coords n)" "cell k (fst (r, c)) (snd (r, c)) = HIT"
    by (simp_all add: grid_coords_mem)
  then show "any_hit n k" unfolding any_hit_def list_ex_iff by blast
qed

lemma elem_le_sum_list:
  fixes xs :: "int list"
  assumes "\<forall>x \<in> set xs. 0 \<le> x" "x \<in> set xs"
  shows "x \<le> sum_list xs"
  using assms
proof (induction xs)
  case Nil
  then show ?case by simp
next
  case (Cons a xs)
  have "0 \<le> sum_list xs" using Cons.prems(1) by (simp add: sum_list_nonneg)
  then show ?case using Cons by auto
qed

lemma cell_le_total:
  assumes sq: "square_grid n h" and nn: "nonneg_grid n h" and ing: "in_grid n r c"
  shows "0 \<le> cell h r c \<and> cell h r c \<le> grid_total h"
proof -
  have elems: "0 \<le> x" if "row \<in> set h" "x \<in> set row" for row x
  proof -
    from that(1) obtain i where i: "i < length h" "row = h ! i" by (auto simp: in_set_conv_nth)
    then have len: "length row = nat n" using sq by (auto simp: square_grid_def list_all_iff)
    from that(2) obtain j where j: "j < length row" "x = row ! j" by (auto simp: in_set_conv_nth)
    have "in_grid n (int i) (int j)" using i j len sq by (auto simp: in_grid_def square_grid_def)
    then have "0 \<le> cell h (int i) (int j)" using nn by (simp add: nonneg_grid_def)
    then show ?thesis using i j by (simp add: cell_def)
  qed
  have r: "nat r < length h" using sq ing by (auto simp: square_grid_def in_grid_def)
  then have rowin: "h ! nat r \<in> set h" by simp
  have "nat c < length (h ! nat r)"
    using square_grid_row[OF sq, of r] ing by (auto simp: in_grid_def)
  then have xin: "cell h r c \<in> set (h ! nat r)" by (simp add: cell_def)
  have "cell h r c \<le> sum_list (h ! nat r)"
    using elem_le_sum_list[OF _ xin] elems[OF rowin] by blast
  also have "sum_list (h ! nat r) \<le> sum_list (map sum_list h)"
  proof -
    have "\<forall>s \<in> set (map sum_list h). 0 \<le> s" using elems by (auto intro!: sum_list_nonneg)
    moreover have "sum_list (h ! nat r) \<in> set (map sum_list h)" using rowin by simp
    ultimately show ?thesis by (rule elem_le_sum_list)
  qed
  finally show ?thesis using nn ing by (simp add: grid_total_def nonneg_grid_def)
qed

section \<open>The opening position\<close>

lemma heat_a: "heatmap std_ai (knowledge_of 10 [] []) (Some [5, 4, 3, 3, 2]) = heat_a"
  by code_simp

lemma clusters_a: "hit_clusters 10 (knowledge_of 10 [] []) = []"
  by code_simp

lemma targets_a: "target_candidates it 10 (knowledge_of 10 [] []) = []"
  by (simp add: target_candidates_def clusters_a)

lemma top_a: "top_candidates 10 heat_a (knowledge_of 10 [] []) 8 =
   [(5, 5), (4, 4), (6, 4), (5, 3), (4, 6), (3, 5), (6, 6), (3, 3)]"
  by code_simp

lemma cell_knowledge_of:
  assumes "in_grid n r c"
  shows "cell (knowledge_of n hs ms) r c =
         (if (r, c) \<in> set hs then HIT else if (r, c) \<in> set ms then MISS else - 1)"
  using assms
  by (simp add: knowledge_of_def cell_def in_grid_def py_range_length py_range_nth)

section \<open>Choosing among the candidates\<close>

lemma pick_step_keep:
  fixes score :: "coord \<Rightarrow> rat"
  assumes "\<forall>p \<in> set xs. score p \<le> bs"
  shows "fold (\<lambda>p (best_score, best_move).
                 if score p > best_score then (score p, p) else (best_score, best_move))
              xs (bs, bm) = (bs, bm)"
  using assms by (induction xs) auto

lemma pick_best_first:
  assumes "cands \<noteq> []" "\<forall>p \<in> set cands. score p \<le> score (hd cands)"
  shows "snd (pick_best score cands) = hd cands"
proof -
  obtain c0 rest where c: "cands = c0 # rest" using assms(1) by (cases cands) auto
  have rest: "\<forall>p \<in> set rest. score p \<le> score c0" using assms(2) c by simp
  show ?thesis
  proof (cases "score c0 > - 1000000000")
    case True
    then show ?thesis
      using pick_step_keep[of rest score "score c0" c0] rest
      by (simp add: pick_best_def c)
  next
    case False
    then have "\<forall>p \<in> set rest. score p \<le> - 1000000000" using rest by auto
    then show ?thesis
      using pick_step_keep[of rest score "- 1000000000" c0] False
      by (simp add: pick_best_def c)
  qed
qed

lemma pick_step_mem:
  fixes score :: "coord \<Rightarrow> rat"
  shows "snd (fold (\<lambda>p (best_score, best_move).
                 if score p > best_score then (score p, p) else (best_score, best_move))
              xs (bs, bm)) \<in> insert bm (set xs)"
  by (induction xs arbitrary: bs bm) auto

lemma pick_best_mem: "cands \<noteq> [] \<Longrightarrow> snd (pick_best score cands) \<in> set cands"
  using pick_step_mem[of score cands "- 1000000000" "hd cands"]
  by (auto simp: pick_best_def)

lemma score_mono:
  fixes g :: rat
  assumes "(a::int) \<le> b"
  shows "(if (t::int) \<le> 0 then 0 else of_int a / of_int t) - g \<le>
         (if t \<le> 0 then 0 else of_int b / of_int t) - g"
  using assms by (auto simp: divide_right_mono)

lemma cands_a_heat:
  "\<forall>p \<in> set [(5, 5), (4, 4), (6, 4), (5, 3), (4, 6), (3, 5), (6, 6), (3, 3)].
     cell heat_a (fst p) (snd p) \<le> cell heat_a 5 5"
  by (simp add: cell_def heat_a_def)

lemma choose_shot_a:
  assumes "grid_covers 10 ps"
  shows "choose_shot it std_ai (knowledge_of 10 [] []) ps rem = Inr (5, 5)"
proof -
  let ?cands = "[(5, 5), (4, 4), (6, 4), (5, 3), (4, 6), (3, 5), (6, 6), (3, 3)] :: coord list"
  let ?g = "best_counter_gain std_ai ps (py_or rem STANDARD_SHIPS)"
  let ?score = "\<lambda>p. (if grid_total heat_a \<le> 0 then 0
                      else of_int (cell heat_a (fst p) (snd p)) / of_int (grid_total heat_a)) - ?g"
  have "\<forall>p \<in> set ?cands. ?score p \<le> ?score (hd ?cands)"
  proof
    fix p assume "p \<in> set ?cands"
    with cands_a_heat have "cell heat_a (fst p) (snd p) \<le> cell heat_a 5 5" by blast
    from score_mono[OF this, of "grid_total heat_a" ?g]
    show "?score p \<le> ?score (hd ?cands)" by (auto split: if_splits)
  qed
  then have pb: "snd (pick_best ?score ?cands) = (5, 5)"
    using pick_best_first[of ?cands ?score] by simp
  have sz: "ai_size std_ai = 10" and rs: "remaining_ships std_ai = [5, 4, 3, 3, 2]"
    by (simp_all add: std_ai_def)
  show ?thesis
    unfolding choose_shot_def Let_def sz rs heat_a targets_a top_a
    using assms pb by (simp add: grid_covers_knowledge_of)
qed

section \<open>Counter gain\<close>

lemma Max_insert_max:
  fixes b :: int
  assumes "finite S"
  shows "Max (insert (max b y) S) = Max (insert b (insert y S))"
proof (cases "S = {}")
  case True
  then show ?thesis by (simp add: max.commute)
next
  case False
  then show ?thesis using assms by (simp add: max.assoc max.commute max.left_commute)
qed

lemma fold_best_max:
  fixes f :: "coord \<Rightarrow> int"
  shows "fold (\<lambda>p best. if P p \<and> f p > best then f p else best) xs b =
         Max (insert b (f ` {p \<in> set xs. P p}))"
proof (induction xs arbitrary: b)
  case Nil
  then show ?case by simp
next
  case (Cons x xs)
  let ?S = "f ` {p \<in> set xs. P p}"
  have fin: "finite ?S" by simp
  show ?case
  proof (cases "P x")
    case True
    have set_eq: "f ` {p \<in> set (x # xs). P p} = insert (f x) ?S" using True by auto
    have "fold (\<lambda>p best. if P p \<and> f p > best then f p else best) (x # xs) b =
          Max (insert (max b (f x)) ?S)"
      using Cons.IH[of "if f x > b then f x else b"] True by (simp add: max_def)
    also have "\<dots> = Max (insert b (insert (f x) ?S))"
      by (rule Max_insert_max[OF fin])
    finally show ?thesis by (simp only: set_eq)
  next
    case False
    then have set_eq: "f ` {p \<in> set (x # xs). P p} = ?S" by auto
    show ?thesis using Cons.IH[of b] False by (simp only: set_eq fold_simps o_apply if_False simp_thms)
  qed
qed

lemma best_unknown_max:
  "best_unknown n pk heat =
     Max (insert 0 ((\<lambda>p. cell heat (fst p) (snd p)) `
            {p \<in> set (grid_coords n). cell pk (fst p) (snd p) = - 1}))"
  unfolding best_unknown_def by (rule fold_best_max)

lemma grid_total_nonneg:
  assumes "square_grid n h" "nonneg_grid n h"
  shows "0 \<le> grid_total h"
proof (cases "in_grid n 0 0")
  case True
  then show ?thesis using cell_le_total[OF assms True] by simp
next
  case False
  then have "h = []" using assms(1) by (auto simp: in_grid_def square_grid_def)
  then show ?thesis by (simp add: grid_total_def)
qed

lemma gain_w: "best_counter_gain ai_c10 know_c7 [2] = 1 / 2"
  by code_simp

lemma total_w: "grid_total (heatmap ai_c10 know_c7 (Some [2])) = 4"
  by code_simp

lemma heat_w: "heatmap ai_c10 know_c7 (Some [2]) = [[2, 0], [0, 2]]"
  by code_simp

section \<open>The chosen shot\<close>

lemma shot_c2: "choose_shot (\<lambda>xs. xs) ai_c2 know_c2 know_c2 None = Inr (1, 2)"
  by code_simp

section \<open>The invariant holds on every board the source builds\<close>

lemma new_board_inv: "board_inv (new_board n)"
  by (simp add: board_inv_def new_board_def square_grid_def list_all_iff)

lemma fold_mark_square:
  "square_grid n g \<Longrightarrow> square_grid n (fold (\<lambda>(rr, cc) g. set_cell g rr cc v) cs g)"
  by (induction cs arbitrary: g) (auto simp: square_set_cell)

lemma fold_mark_cell:
  assumes "square_grid n g" "\<forall>q \<in> set cs. in_grid n (fst q) (snd q)" "in_grid n r c"
  shows "cell (fold (\<lambda>(rr, cc) g. set_cell g rr cc v) cs g) r c =
         (if (r, c) \<in> set cs then v else cell g r c)"
  using assms
proof (induction cs arbitrary: g)
  case Nil
  then show ?case by simp
next
  case (Cons q cs)
  obtain qr qc where q: "q = (qr, qc)" by (cases q)
  have sq: "square_grid n (set_cell g qr qc v)" using Cons.prems(1) by (rule square_set_cell)
  have ing: "in_grid n qr qc" using Cons.prems(2) q by simp
  have "cell (set_cell g qr qc v) r c = (if r = qr \<and> c = qc then v else cell g r c)"
    using cell_set_cell[OF Cons.prems(1) ing, of r c v] Cons.prems(3) by (simp add: in_grid_def)
  then show ?case
    using Cons.IH[OF sq] Cons.prems(2,3) by (auto simp: q)
qed

lemma place_ship_inv:
  assumes inv: "board_inv b"
  shows "board_inv (snd (place_ship b r c len horizontal))"
proof (cases "can_place b r c len horizontal")
  case False
  then show ?thesis using inv by (simp add: place_ship_def)
next
  case True
  let ?n = "board_size b" and ?g = "board_grid b"
  let ?cs = "placement_cells r c len horizontal"
  let ?g' = "fold (\<lambda>(rr, cc) g. set_cell g rr cc SHIP) ?cs ?g"
  let ?new = "\<lparr> ship_length = len, cells = ?cs, hits = 0 \<rparr>"
  from inv have sq: "square_grid ?n ?g" and oks: "list_all (ship_ok ?g ?n) (ships b)"
    and d: "distinct (concat (map cells (ships b)))"
    by (auto simp: board_inv_def)
  have free: "\<forall>q \<in> set ?cs. in_grid ?n (fst q) (snd q) \<and> cell ?g (fst q) (snd q) = EMPTY"
    using True by (auto simp: can_place_def list_all_iff in_bounds_def in_grid_def)
  then have ing: "\<forall>q \<in> set ?cs. in_grid ?n (fst q) (snd q)" by blast
  have b': "snd (place_ship b r c len horizontal) =
      b\<lparr> board_grid := ?g', ships := ships b @ [?new], total_ship_cells := total_ship_cells b + len \<rparr>"
    using True by (simp add: place_ship_def Let_def)
  have sq': "square_grid ?n ?g'" using sq by (rule fold_mark_square)
  have old_cells: "(qr, qc) \<notin> set ?cs \<and> in_grid ?n qr qc"
    if "s \<in> set (ships b)" "(qr, qc) \<in> set (cells s)" for s qr qc
  proof -
    from oks that have "in_grid ?n qr qc" "cell ?g qr qc = SHIP \<or> cell ?g qr qc = HIT"
      by (auto simp: list_all_iff ship_ok_def)
    then show ?thesis using free by (auto simp: cell_consts)
  qed
  have old_same: "cell ?g' qr qc = cell ?g qr qc"
    if "s \<in> set (ships b)" "(qr, qc) \<in> set (cells s)" for s qr qc
    using fold_mark_cell[OF sq ing, of qr qc SHIP] old_cells[OF that] by simp
  have old_ok: "ship_ok ?g' ?n s" if s: "s \<in> set (ships b)" for s
  proof -
    have ok: "ship_ok ?g ?n s" using oks s by (simp add: list_all_iff)
    have f: "filter (\<lambda>(qr, qc). cell ?g' qr qc = HIT) (cells s) =
             filter (\<lambda>(qr, qc). cell ?g qr qc = HIT) (cells s)"
      by (intro filter_cong) (auto simp: old_same[OF s])
    show ?thesis
      using ok unfolding ship_ok_def f list_all_iff by (auto simp: old_same[OF s])
  qed
  have new_cells: "cell ?g' (fst q) (snd q) = SHIP \<and> in_grid ?n (fst q) (snd q)"
    if "q \<in> set ?cs" for q
    using fold_mark_cell[OF sq ing, of "fst q" "snd q" SHIP] that ing by simp
  have "filter (\<lambda>(qr, qc). cell ?g' qr qc = HIT) ?cs = []"
    using new_cells by (auto simp: filter_empty_conv cell_consts)
  then have new_ok: "ship_ok ?g' ?n ?new"
    using new_cells by (auto simp: ship_ok_def list_all_iff placement_cells_def py_range_length)
  have "set ?cs \<inter> set (concat (map cells (ships b))) = {}"
    using old_cells by fastforce
  then have d': "distinct (concat (map cells (ships b @ [?new])))"
    using d distinct_placement_cells[of r c len horizontal] by auto
  show ?thesis
    unfolding b' using sq' old_ok new_ok d' by (simp add: board_inv_def list_all_iff)
qed

section \<open>Claims\<close>

text \<open>
  C1. The hit-clusters are the maximal 4-connected sets of \<open>HIT\<close> cells of the knowledge
  grid (\<open>hit_cluster_sets\<close>). On a knowledge grid that holds every cell of the board, for
  an origin \<open>(r, c)\<close> that \<open>heatmap\<close> tries for a ship of length \<open>len\<close> in the given
  orientation, the two checks of the source pass exactly when (i) no covered cell is
  \<open>MISS\<close>, (ii) every cluster met has at most \<open>len\<close> cells and lies inside the
  covered cells, (iii) no cluster met has the other orientation, and (iv) at most one
  cluster is met; the step then adds 1 to each covered cell and otherwise changes
  nothing, so the base heat of a cell is the number of counted placements covering it.
\<close>

theorem placement_contributes_iff:
  assumes "grid_covers n k"
    and "square_grid n heat" "(r, c) \<in> set (origins n len horizontal)" "in_grid n r' c'"
  shows "(valid_placement_on_knowledge n k r c len horizontal \<and>
          placement_consistent_with_clusters (placement_cells r c len horizontal)
            (hit_clusters n k) len horizontal
          \<longleftrightarrow> placement_counts n k r c len horizontal) \<and>
         cell (place_step n k (hit_clusters n k) len horizontal (r, c) heat) r' c' =
           cell heat r' c' +
             (if placement_counts n k r c len horizontal \<and>
                 (r', c') \<in> set (placement_cells r c len horizontal) then 1 else 0) \<and>
         cell (base_heat n k fleet) r' c' =
           (\<Sum>len\<leftarrow>fleet. int (length (covering_placements n k len True (r', c'))) +
                         int (length (covering_placements n k len False (r', c'))))"
  using placement_counts_code[OF assms(3), of k] place_step_cell[OF assms(2,3,4), of k]
    base_heat_cell[OF assms(4), of k fleet]
  by blast

theorem placement_contributes_iff_witness:
  "grid_covers 3 know_c1 \<and> grid_covers 3 know_two \<and> square_grid 3 (zero_grid 3) \<and> (0, 0) \<in> set (origins 3 2 True) \<and>
   (0, 0) \<in> set (origins 3 3 True) \<and> in_grid 3 0 1 \<and>
   hit_cluster_sets 3 know_c1 = {{(0, 0), (0, 1)}} \<and>
   placement_counts 3 know_c1 0 0 2 True \<and>
   cell (place_step 3 know_c1 (hit_clusters 3 know_c1) 2 True (0, 0) (zero_grid 3)) 0 1 = 1 \<and>
   hit_cluster_sets 3 know_two = {{(0, 0)}, {(0, 2)}} \<and>
   \<not> placement_counts 3 know_two 0 0 3 True \<and>
   cell (place_step 3 know_two (hit_clusters 3 know_two) 3 True (0, 0) (zero_grid 3)) 0 1 = 0"
proof -
  have g1: "grid_covers 3 know_c1" by code_simp
  have g2: "grid_covers 3 know_two" by code_simp
  have a: "square_grid 3 (zero_grid 3)" by (rule square_zero_grid)
  have b: "(0, 0) \<in> set (origins 3 2 True)" by (simp add: origins_mem)
  have b3: "(0, 0) \<in> set (origins 3 3 True)" by (simp add: origins_mem)
  have c: "in_grid 3 0 1" by (simp add: in_grid_def)
  have code1: "valid_placement_on_knowledge 3 know_c1 0 0 2 True \<and>
      placement_consistent_with_clusters (placement_cells 0 0 2 True)
        (hit_clusters 3 know_c1) 2 True"
    by code_simp
  have code2: "\<not> placement_consistent_with_clusters (placement_cells 0 0 3 True)
        (hit_clusters 3 know_two) 3 True"
    by code_simp
  have l1: "hit_clusters 3 know_c1 = [([(0, 0), (0, 1)], Some Horizontal)]" by code_simp
  have l2: "hit_clusters 3 know_two = [([(0, 0)], None), ([(0, 2)], None)]" by code_simp
  have s1: "hit_cluster_sets 3 know_c1 = {{(0, 0), (0, 1)}}"
    using hit_clusters_correct[of 3 know_c1] unfolding l1 by simp
  have s2: "hit_cluster_sets 3 know_two = {{(0, 0)}, {(0, 2)}}"
    using hit_clusters_correct[of 3 know_two] unfolding l2 by simp
  note t1 = placement_contributes_iff[OF g1 a b c, of "[2]"]
  note t2 = placement_contributes_iff[OF g2 a b3 c, of "[3]"]
  have d1: "placement_counts 3 know_c1 0 0 2 True" using t1 code1 by blast
  have d2: "\<not> placement_counts 3 know_two 0 0 3 True" using t2 code2 by blast
  have e: "(0, 1) \<in> set (placement_cells 0 0 2 True)" by (simp add: placement_cells_mem)
  have "cell (place_step 3 know_c1 (hit_clusters 3 know_c1) 2 True (0, 0) (zero_grid 3)) 0 1 =
        cell (zero_grid 3) 0 1 +
          (if placement_counts 3 know_c1 0 0 2 True \<and> (0, 1) \<in> set (placement_cells 0 0 2 True)
           then 1 else 0)"
    using t1 by blast
  then have f1: "cell (place_step 3 know_c1 (hit_clusters 3 know_c1) 2 True (0, 0) (zero_grid 3)) 0 1 = 1"
    using d1 e c by (simp add: cell_zero_grid)
  have "cell (place_step 3 know_two (hit_clusters 3 know_two) 3 True (0, 0) (zero_grid 3)) 0 1 =
        cell (zero_grid 3) 0 1 +
          (if placement_counts 3 know_two 0 0 3 True \<and> (0, 1) \<in> set (placement_cells 0 0 3 True)
           then 1 else 0)"
    using t2 by blast
  then have f2: "cell (place_step 3 know_two (hit_clusters 3 know_two) 3 True (0, 0) (zero_grid 3)) 0 1 = 0"
    using d2 c by (simp add: cell_zero_grid)
  from g1 g2 a b b3 c s1 d1 f1 s2 d2 f2 show ?thesis by blast
qed

text \<open>
  C2. When both knowledge grids can be read at every cell of the board, \<open>choose_shot\<close>
  returns a coordinate and raises nothing; when the AI's view of the opponent has an
  Unknown cell, the coordinate returned is in bounds and Unknown there.
\<close>

theorem choose_shot_unknown:
  assumes "grid_covers (ai_size a) pk" "grid_covers (ai_size a) ps"
  shows "(\<exists>p. choose_shot it a pk ps rem = Inr p) \<and>
         ((\<exists>r c. in_grid (ai_size a) r c \<and> cell pk r c = - 1) \<longrightarrow>
          (\<exists>r c. choose_shot it a pk ps rem = Inr (r, c) \<and>
                 in_grid (ai_size a) r c \<and> cell pk r c = - 1))"
proof -
  let ?n = "ai_size a"
  let ?heat = "heatmap a pk (Some (remaining_ships a))"
  let ?cands = "if target_candidates it ?n pk \<noteq> [] then target_candidates it ?n pk
                else top_candidates ?n ?heat pk 8"
  let ?score = "\<lambda>p. (if grid_total ?heat \<le> 0 then 0
                      else of_int (cell ?heat (fst p) (snd p)) / of_int (grid_total ?heat))
                     - best_counter_gain a ps (py_or rem STANDARD_SHIPS)"
  have cands_open: "open_cell ?n pk q" if "q \<in> set ?cands" for q
  proof (cases "target_candidates it ?n pk \<noteq> []")
    case True
    then show ?thesis using that target_candidates_open[of q it ?n pk] by simp
  next
    case False
    then have "q \<in> set (unknown_cells ?n pk)"
      using that top_candidates_subset[of ?n ?heat pk 8] by auto
    then show ?thesis
      using unknown_cells_mem[of "fst q" "snd q" ?n pk] by (simp add: open_cell_def)
  qed
  show ?thesis
  proof (cases "?cands = []")
    case True
    then have res: "choose_shot it a pk ps rem =
        (case find (\<lambda>p. cell pk (fst p) (snd p) = - 1) (grid_coords ?n) of
           Some p \<Rightarrow> Inr p | None \<Rightarrow> Inr (0, 0))"
      using assms(1) by (simp add: choose_shot_def Let_def)
    have first: "\<exists>p. choose_shot it a pk ps rem = Inr p"
      unfolding res by (cases "find (\<lambda>p. cell pk (fst p) (snd p) = - 1) (grid_coords ?n)") auto
    have second: "\<exists>r c. choose_shot it a pk ps rem = Inr (r, c) \<and> in_grid ?n r c \<and> cell pk r c = - 1"
      if "\<exists>r c. in_grid ?n r c \<and> cell pk r c = - 1"
    proof -
      from that obtain r c where "(r, c) \<in> set (grid_coords ?n)" "cell pk r c = - 1"
        using grid_coords_mem by blast
      then have "\<exists>x. x \<in> set (grid_coords ?n) \<and> cell pk (fst x) (snd x) = - 1"
        by (intro exI[of _ "(r, c)"]) simp
      then have "find (\<lambda>p. cell pk (fst p) (snd p) = - 1) (grid_coords ?n) \<noteq> None"
        by (simp add: find_None_iff)
      then obtain p where f: "find (\<lambda>p. cell pk (fst p) (snd p) = - 1) (grid_coords ?n) = Some p"
        by auto
      then have "p \<in> set (grid_coords ?n)" "cell pk (fst p) (snd p) = - 1"
        by (auto simp: find_Some_iff)
      then show ?thesis
        using f grid_coords_mem[of "fst p" "snd p" ?n] unfolding res
        by (intro exI[of _ "fst p"] exI[of _ "snd p"]) simp
    qed
    from first second show ?thesis by blast
  next
    case False
    then have res: "choose_shot it a pk ps rem = Inr (snd (pick_best ?score ?cands))"
      using assms by (simp add: choose_shot_def Let_def)
    have "snd (pick_best ?score ?cands) \<in> set ?cands" by (rule pick_best_mem[OF False])
    then have "open_cell ?n pk (snd (pick_best ?score ?cands))" by (rule cands_open)
    then have "\<exists>r c. choose_shot it a pk ps rem = Inr (r, c) \<and> in_grid ?n r c \<and> cell pk r c = - 1"
      unfolding res open_cell_def
      by (intro exI[of _ "fst (snd (pick_best ?score ?cands))"]
                exI[of _ "snd (snd (pick_best ?score ?cands))"]) simp
    then show ?thesis by blast
  qed
qed

theorem choose_shot_unknown_witness:
  "grid_covers (ai_size ai_c2) know_c2 \<and> in_grid (ai_size ai_c2) 1 2 \<and> cell know_c2 1 2 = - 1 \<and>
   cell know_c2 1 1 = MISS \<and> choose_shot (\<lambda>xs. xs) ai_c2 know_c2 know_c2 None = Inr (1, 2)"
proof -
  have sz: "ai_size ai_c2 = 3" by (simp add: ai_c2_def)
  have g: "grid_covers (ai_size ai_c2) know_c2"
    unfolding sz know_c2_def by (rule grid_covers_knowledge_of)
  have i: "in_grid (ai_size ai_c2) 1 2" by (simp add: sz in_grid_def)
  have u: "cell know_c2 1 2 = - 1" by code_simp
  have m: "cell know_c2 1 1 = MISS" by code_simp
  from choose_shot_unknown[OF g g, of "\<lambda>xs. xs" None] i u
  have "\<exists>r c. choose_shot (\<lambda>xs. xs) ai_c2 know_c2 know_c2 None = Inr (r, c) \<and>
               in_grid (ai_size ai_c2) r c \<and> cell know_c2 r c = - 1"
    by blast
  then show ?thesis using g i u m shot_c2 by blast
qed

text \<open>
  C3. On a knowledge grid without a \<open>HIT\<close> cell, for a non-empty ship list whose least
  length is at least 2, the heat of an odd-parity cell is a quarter of its unpruned
  heat, truncated toward zero, and the heat of an even-parity cell is its unpruned
  heat. On the all-Unknown 10 by 10 grid with ships \<open>[5, 4, 3, 3, 2]\<close>, \<open>choose_shot\<close> returns
  \<open>(5, 5)\<close>, a cell of even parity, whatever the opponent's view.
\<close>

theorem parity_pruning:
  assumes "grid_covers (ai_size a) k"
    and "\<forall>r c. in_grid (ai_size a) r c \<longrightarrow> cell k r c \<noteq> HIT"
    and "fleet \<noteq> []" and "Min (set fleet) \<ge> 2"
    and "in_grid (ai_size a) r c"
    and "grid_covers 10 ps"
  shows "cell (heatmap a k (Some fleet)) r c =
           (if (r + c) mod 2 = 1 then quarter (cell (boosted_heat (ai_size a) k fleet) r c)
            else cell (boosted_heat (ai_size a) k fleet) r c) \<and>
         choose_shot it std_ai (knowledge_of 10 [] []) ps rem = Inr (5, 5) \<and>
         (\<exists>r' c'. choose_shot it std_ai (knowledge_of 10 [] []) ps rem = Inr (r', c') \<and>
                  (r' + c') mod 2 = 0)"
proof -
  have nh: "\<not> any_hit (ai_size a) k" using assms(2) by (simp add: any_hit_iff)
  have "heatmap a k (Some fleet) =
        fold prune_step (grid_coords (ai_size a)) (boosted_heat (ai_size a) k fleet)"
    using nh assms(3,4) by (simp add: heatmap_def Let_def py_or_def)
  then have "cell (heatmap a k (Some fleet)) r c =
           (if (r + c) mod 2 = 1 then quarter (cell (boosted_heat (ai_size a) k fleet) r c)
            else cell (boosted_heat (ai_size a) k fleet) r c)"
    using pruned_cell[OF boosted_heat_square assms(5)] by simp
  moreover note cs = choose_shot_a[OF assms(6), of it rem]
  moreover have "\<exists>r' c'. choose_shot it std_ai (knowledge_of 10 [] []) ps rem = Inr (r', c') \<and>
                  (r' + c') mod 2 = 0"
    using cs by (intro exI[of _ 5]) simp
  ultimately show ?thesis by blast
qed

theorem parity_pruning_witness:
  "grid_covers (ai_size std_ai) (knowledge_of 10 [] []) \<and>
   \<not> any_hit (ai_size std_ai) (knowledge_of 10 [] []) \<and>
   [5, 4, 3, 3, 2] \<noteq> ([] :: int list) \<and> Min (set [5, 4, 3, 3, 2 :: int]) \<ge> 2 \<and>
   in_grid (ai_size std_ai) 0 1 \<and>
   cell (boosted_heat 10 (knowledge_of 10 [] []) [5, 4, 3, 3, 2]) 0 1 = 15 \<and>
   cell (heatmap std_ai (knowledge_of 10 [] []) (Some [5, 4, 3, 3, 2])) 0 1 = 3 \<and>
   choose_shot (\<lambda>xs. xs) std_ai (knowledge_of 10 [] []) (knowledge_of 10 [] []) None = Inr (5, 5)"
proof -
  let ?k = "knowledge_of 10 [] []"
  have sz: "ai_size std_ai = 10" by (simp add: std_ai_def)
  have a1: "grid_covers (ai_size std_ai) ?k" unfolding sz by (rule grid_covers_knowledge_of)
  have a2: "\<forall>r c. in_grid (ai_size std_ai) r c \<longrightarrow> cell ?k r c \<noteq> HIT"
    by (simp add: sz cell_knowledge_of cell_consts)
  have a3: "[5, 4, 3, 3, 2] \<noteq> ([] :: int list)" by simp
  have a4: "Min (set [5, 4, 3, 3, 2 :: int]) \<ge> 2" by simp
  have a5: "in_grid (ai_size std_ai) 0 1" by (simp add: sz in_grid_def)
  have a6: "grid_covers 10 ?k" by (rule grid_covers_knowledge_of)
  have b: "cell (boosted_heat 10 ?k [5, 4, 3, 3, 2]) 0 1 = 15" by code_simp
  from parity_pruning[OF a1 a2 a3 a4 a5 a6, of "\<lambda>xs. xs" None]
  have "cell (heatmap std_ai ?k (Some [5, 4, 3, 3, 2])) 0 1 =
          quarter (cell (boosted_heat 10 ?k [5, 4, 3, 3, 2]) 0 1)"
    and "choose_shot (\<lambda>xs. xs) std_ai ?k ?k None = Inr (5, 5)"
    by (simp_all add: sz)
  moreover have "\<not> any_hit (ai_size std_ai) ?k" using a2 by (simp add: any_hit_iff)
  ultimately show ?thesis using a1 a3 a4 a5 b by (simp add: quarter_def)
qed

text \<open>
  C4. The hit-clusters are the maximal 4-connected sets of \<open>HIT\<close> cells of the knowledge
  grid (\<open>hit_cluster_sets\<close>). Whatever the order in which Python iterates a set, the
  candidates are exactly the cells that \<open>cluster_targets\<close> gives for these clusters, each
  once: for a cluster without orientation every in-bounds Unknown orthogonal neighbour of
  its cells, for an oriented cluster at most the Unknown cell one step beyond each end of
  its span. A single hit at \<open>(4, 4)\<close> on the 10 by 10 grid gives its four neighbours, hits at
  \<open>(4, 4)\<close> and \<open>(4, 5)\<close> give \<open>(4, 3)\<close> and \<open>(4, 6)\<close>.
\<close>

theorem target_candidates_per_cluster:
  assumes "grid_covers n k" "set_iteration it"
  shows "set (target_candidates it n k) = \<Union> (cluster_targets n k ` hit_cluster_sets n k) \<and>
         distinct (target_candidates it n k) \<and>
         target_candidates it 10 (knowledge_of 10 [(4, 4)] []) = [(5, 4), (3, 4), (4, 5), (4, 3)] \<and>
         target_candidates it 10 (knowledge_of 10 [(4, 4), (4, 5)] []) = [(4, 3), (4, 6)]"
  using target_candidates_clusters[OF assms(2), of n k] target_candidates_distinct[of it n k]
    scenario_b[OF assms(2)] scenario_c[of it]
  by blast

theorem target_candidates_per_cluster_witness:
  "grid_covers 10 (knowledge_of 10 [(4, 4), (4, 6)] []) \<and> set_iteration (\<lambda>xs. xs) \<and>
   hit_cluster_sets 10 (knowledge_of 10 [(4, 4), (4, 6)] []) = {{(4, 4)}, {(4, 6)}} \<and>
   \<Union> (cluster_targets 10 (knowledge_of 10 [(4, 4), (4, 6)] []) `
        hit_cluster_sets 10 (knowledge_of 10 [(4, 4), (4, 6)] [])) =
     {(5, 4), (3, 4), (4, 5), (4, 3), (5, 6), (3, 6), (4, 7)} \<and>
   target_candidates (\<lambda>xs. xs) 10 (knowledge_of 10 [(4, 4), (4, 6)] []) =
     [(5, 4), (3, 4), (4, 5), (4, 3), (5, 6), (3, 6), (4, 7)]"
proof -
  let ?k = "knowledge_of 10 [(4, 4), (4, 6)] []"
  have g: "grid_covers 10 ?k" by (rule grid_covers_knowledge_of)
  have i: "set_iteration (\<lambda>xs. xs)" by (rule set_iteration_id)
  have l: "hit_clusters 10 ?k = [([(4, 4)], None), ([(4, 6)], None)]" by code_simp
  have s: "hit_cluster_sets 10 ?k = {{(4, 4)}, {(4, 6)}}"
    using hit_clusters_correct[of 10 ?k] unfolding l by simp
  from target_candidates_per_cluster[OF g i]
  have "set (target_candidates (\<lambda>xs. xs) 10 ?k) = \<Union> (cluster_targets 10 ?k ` hit_cluster_sets 10 ?k)"
    by blast
  then have u: "\<Union> (cluster_targets 10 ?k ` hit_cluster_sets 10 ?k) =
      {(5, 4), (3, 4), (4, 5), (4, 3), (5, 6), (3, 6), (4, 7)}"
    unfolding two_hits_listed by simp
  from g i s u two_hits_listed show ?thesis by blast
qed

text \<open>
  C5. On a board satisfying the invariant, in any sequence of \<open>receive_shot\<close> calls, a call
  reports the length of ship \<open>i\<close> for a shot at one of its cells exactly when that call
  raises the ship's hit count from \<open>length - 1\<close> to \<open>length\<close>; the number of such calls in the
  sequence is one when the ship was afloat before and is sunk after the sequence, and
  zero otherwise, so every other call reports nothing for that ship.
\<close>

theorem sunk_reported_once:
  assumes "board_inv b" "i < length (ships b)"
  shows "(\<forall>e \<in> set (run_shots b ps). sunk_report_for i e \<longleftrightarrow> raises_to_sunk i e) \<and>
         length (filter (sunk_report_for i) (run_shots b ps)) =
           (if \<not> sunk (ships b ! i) \<and> sunk (ships (final_board b ps) ! i) then 1 else 0)"
proof -
  have "sunk_report_for i e \<longleftrightarrow> raises_to_sunk i e" if "e \<in> set (run_shots b ps)" for e
  proof -
    obtain b0 p res b1 where e: "e = (b0, p, res, b1)" by (cases e) auto
    from run_shots_inv[OF assms(1) that[unfolded e]]
    have "board_inv b0" "i < length (ships b0)" "(res, b1) = receive_shot b0 (fst p) (snd p)"
      using assms(2) by auto
    with receive_shot_step(1)[of b0 i "fst p" "snd p"] show ?thesis by (simp add: e)
  qed
  then show ?thesis using count_sunk_reports[OF assms] by blast
qed

theorem sunk_reported_once_witness:
  "board_inv demo_board \<and> 0 < length (ships demo_board) \<and>
   length (filter (sunk_report_for 0)
             (run_shots demo_board [(0, 0), (1, 1), (0, 1), (0, 1)])) = 1 \<and>
   map (\<lambda>(b0, p, res, b1). fst (snd res))
       (run_shots demo_board [(0, 0), (1, 1), (0, 1), (0, 1)]) = [None, None, Some 2, None]"
proof -
  have inv: "board_inv demo_board"
    by (simp add: board_inv_def demo_board_def square_grid_def ship_ok_def in_grid_def
        cell_def cell_consts)
  have n: "0 < length (ships demo_board)" by (simp add: demo_board_def)
  have afloat: "\<not> sunk (ships demo_board ! 0)" by (simp add: demo_board_def sunk_def)
  have "sunk (ships (final_board demo_board [(0, 0), (1, 1), (0, 1), (0, 1)]) ! 0)"
    by (simp add: final_board_def demo_board_def receive_shot_def in_bounds_def cell_def
        set_cell_def cell_consts sunk_def all_ships_sunk_def Let_def)
  moreover have "map (\<lambda>(b0, p, res, b1). fst (snd res))
       (run_shots demo_board [(0, 0), (1, 1), (0, 1), (0, 1)]) = [None, None, Some 2, None]"
    by (simp add: demo_board_def receive_shot_def in_bounds_def cell_def
        set_cell_def cell_consts sunk_def all_ships_sunk_def Let_def)
  ultimately show ?thesis
    using inv n afloat sunk_reported_once[OF inv n, of "[(0, 0), (1, 1), (0, 1), (0, 1)]"]
    by simp
qed

text \<open>
  C6. A shot out of bounds, or at a cell that is already \<open>HIT\<close> or \<open>MISS\<close>, reports
  \<open>hit = False\<close> and \<open>sunk_length = None\<close> and returns the board as it was: grid, ship list,
  hit counts and total ship-cell count.
\<close>

theorem receive_shot_noop:
  assumes "\<not> in_bounds b r c \<or> cell (board_grid b) r c = HIT \<or> cell (board_grid b) r c = MISS"
  shows "receive_shot b r c = ((False, None, all_ships_sunk b), b)"
  using assms by (auto simp: receive_shot_def Let_def)

theorem receive_shot_noop_witness:
  "receive_shot demo_board 0 0 = ((False, None, False), demo_board)
   \<and> receive_shot demo_board 1 0 = ((False, None, False), demo_board)
   \<and> receive_shot demo_board 0 7 = ((False, None, False), demo_board)"
  using receive_shot_noop[of demo_board 0 0] receive_shot_noop[of demo_board 1 0]
    receive_shot_noop[of demo_board 0 7]
  by (simp add: demo_board_def in_bounds_def cell_def cell_consts all_ships_sunk_def sunk_def)

text \<open>
  C7, as stated, fails: with four Unknown cells, heats \<open>[[1, 0], [0, 0]]\<close> and \<open>k = 2\<close>, the two
  highest-ranked cells are \<open>(0, 0)\<close> and \<open>(1, 1)\<close>, but only \<open>(0, 0)\<close> is returned, because
  \<open>(1, 1)\<close> has no positive heat.
\<close>

theorem top_candidates_not_k_counterexample:
  "\<not> (top_candidates 2 heat_c7 know_c7 2 = map snd (take 2 (ranked_unknown 2 heat_c7 know_c7)))
   \<and> length (filter (\<lambda>p. cell know_c7 (fst p) (snd p) = - 1) (grid_coords 2)) \<ge> 2
   \<and> map snd (take 2 (ranked_unknown 2 heat_c7 know_c7)) = [(0, 0), (1, 1)]
   \<and> top_candidates 2 heat_c7 know_c7 2 = [(0, 0)]"
  by code_simp

text \<open>
  C7, amended. The Unknown cells are ranked in descending order of \<open>(heat, row, col)\<close>.
  For \<open>k \<ge> 0\<close> the result is, in that order, those of the first \<open>k\<close> ranked cells whose
  heat is positive, or all of the first \<open>k\<close> when none of them has positive heat; it is
  non-empty whenever \<open>k \<ge> 1\<close> and the knowledge grid has an Unknown cell.
\<close>

theorem top_candidates_positive_or_all:
  assumes "0 \<le> kk"
  shows "sorted (rev (ranked_unknown n heat k)) \<and>
         set (ranked_unknown n heat k) =
           (\<lambda>p. (cell heat (fst p) (snd p), fst p, snd p)) `
             {p \<in> set (grid_coords n). cell k (fst p) (snd p) = - 1} \<and>
         length (ranked_unknown n heat k) =
           length (filter (\<lambda>p. cell k (fst p) (snd p) = - 1) (grid_coords n)) \<and>
         top_candidates n heat k kk =
           (if list_ex (\<lambda>t. fst t > 0) (take (nat kk) (ranked_unknown n heat k))
            then map snd (filter (\<lambda>t. fst t > 0) (take (nat kk) (ranked_unknown n heat k)))
            else map snd (take (nat kk) (ranked_unknown n heat k))) \<and>
         (kk \<ge> 1 \<and> list_ex (\<lambda>p. cell k (fst p) (snd p) = - 1) (grid_coords n)
            \<longrightarrow> top_candidates n heat k kk \<noteq> [])"
proof -
  have "top_candidates n heat k kk =
           (if list_ex (\<lambda>t. fst t > 0) (take (nat kk) (ranked_unknown n heat k))
            then map snd (filter (\<lambda>t. fst t > 0) (take (nat kk) (ranked_unknown n heat k)))
            else map snd (take (nat kk) (ranked_unknown n heat k)))"
    using assms by (auto simp: top_candidates_def Let_def py_take_def list_ex_iff filter_empty_conv)
  moreover have "top_candidates n heat k kk \<noteq> []"
    if "kk \<ge> 1 \<and> list_ex (\<lambda>p. cell k (fst p) (snd p) = - 1) (grid_coords n)"
    using that top_candidates_nonempty[of kk n k heat]
    by (auto simp: unknown_cells_def list_ex_iff filter_empty_conv)
  ultimately show ?thesis
    using ranked_unknown_sorted[of n heat k] ranked_unknown_set[of n heat k]
      ranked_unknown_length[of n heat k]
    by (simp add: unknown_cells_def)
qed

theorem top_candidates_positive_or_all_witness:
  "(0::int) \<le> 2 \<and> (2::int) \<ge> 1 \<and>
   list_ex (\<lambda>p. cell know_c7 (fst p) (snd p) = - 1) (grid_coords 2) \<and>
   top_candidates 2 heat_c7 know_c7 2 = [(0, 0)] \<and>
   top_candidates 2 heat_c7 know_c7 2 \<noteq> []"
proof -
  have h: "(0::int) \<le> 2" by simp
  have ex: "list_ex (\<lambda>p. cell know_c7 (fst p) (snd p) = - 1) (grid_coords 2)"
    by code_simp
  have v: "top_candidates 2 heat_c7 know_c7 2 = [(0, 0)]"
    by code_simp
  have k1: "(2::int) \<ge> 1" by simp
  from top_candidates_positive_or_all[OF h, of 2 heat_c7 know_c7] ex k1
  have "top_candidates 2 heat_c7 know_c7 2 \<noteq> []" by blast
  with h ex v show ?thesis by simp
qed

text \<open>
  C8. \<open>best_counter_gain\<close> is 0 when the heat of the opponent's view sums to 0; otherwise,
  when that view has an Unknown cell, it is the greatest heat of an Unknown cell divided
  by the sum of all heat; and it always lies between 0 and 1.
\<close>

theorem counter_gain_ratio:
  assumes "grid_covers (ai_size a) pk"
  shows "(grid_total (heatmap a pk (Some ai_ships)) = 0 \<longrightarrow> best_counter_gain a pk ai_ships = 0) \<and>
         (grid_total (heatmap a pk (Some ai_ships)) \<noteq> 0 \<longrightarrow>
          list_ex (\<lambda>p. cell pk (fst p) (snd p) = - 1) (grid_coords (ai_size a)) \<longrightarrow>
          best_counter_gain a pk ai_ships =
            of_int (Max ((\<lambda>p. cell (heatmap a pk (Some ai_ships)) (fst p) (snd p)) `
                      {p \<in> set (grid_coords (ai_size a)). cell pk (fst p) (snd p) = - 1})) /
            of_int (grid_total (heatmap a pk (Some ai_ships)))) \<and>
         0 \<le> best_counter_gain a pk ai_ships \<and> best_counter_gain a pk ai_ships \<le> 1"
proof -
  let ?n = "ai_size a"
  let ?h = "heatmap a pk (Some ai_ships)"
  let ?t = "grid_total ?h"
  let ?U = "{p \<in> set (grid_coords ?n). cell pk (fst p) (snd p) = - 1}"
  let ?S = "(\<lambda>p. cell ?h (fst p) (snd p)) ` ?U"
  let ?best = "best_unknown ?n pk ?h"
  have sq: "square_grid ?n ?h" by (rule heatmap_square)
  have nn: "nonneg_grid ?n ?h" by (rule heatmap_nonneg)
  have t0: "0 \<le> ?t" by (rule grid_total_nonneg[OF sq nn])
  have best: "?best = Max (insert 0 ?S)" by (rule best_unknown_max)
  have fin: "finite ?S" by simp
  have S_bounds: "0 \<le> x \<and> x \<le> ?t" if "x \<in> ?S" for x
  proof -
    from that obtain p where "p \<in> set (grid_coords ?n)" "x = cell ?h (fst p) (snd p)" by auto
    then show ?thesis
      using cell_le_total[OF sq nn, of "fst p" "snd p"] grid_coords_mem[of "fst p" "snd p" ?n]
      by simp
  qed
  have "Max (insert 0 ?S) \<in> insert 0 ?S" by (rule Max_in) (use fin in auto)
  then have best_bounds: "0 \<le> ?best" "?best \<le> ?t"
    using S_bounds t0 unfolding best by auto
  have val: "best_counter_gain a pk ai_ships =
      (if ?t \<le> 0 then 0 else of_int ?best / of_int ?t)"
    using best_bounds by (auto simp: best_counter_gain_def Let_def)
  have zero: "?t = 0 \<longrightarrow> best_counter_gain a pk ai_ships = 0" by (simp add: val)
  have ratio: "best_counter_gain a pk ai_ships = of_int (Max ?S) / of_int ?t"
    if "?t \<noteq> 0" "list_ex (\<lambda>p. cell pk (fst p) (snd p) = - 1) (grid_coords ?n)"
  proof -
    from that(2) obtain p where "p \<in> ?U" unfolding list_ex_iff by blast
    then have ne: "?S \<noteq> {}" by blast
    have "0 \<le> Max ?S" using Max_in[OF fin ne] S_bounds by blast
    then have "Max (insert 0 ?S) = Max ?S" using fin ne by (simp add: max_def)
    then show ?thesis using that(1) t0 by (simp add: val best)
  qed
  have lo: "0 \<le> best_counter_gain a pk ai_ships"
    using best_bounds t0 by (simp add: val)
  have hi: "best_counter_gain a pk ai_ships \<le> 1"
    using best_bounds t0 by (simp add: val)
  from zero ratio lo hi show ?thesis by blast
qed

theorem counter_gain_ratio_witness:
  "grid_covers (ai_size ai_c10) know_c7 \<and>
   grid_total (heatmap ai_c10 know_c7 (Some [2])) = 4 \<and>
   list_ex (\<lambda>p. cell know_c7 (fst p) (snd p) = - 1) (grid_coords (ai_size ai_c10)) \<and>
   Max ((\<lambda>p. cell (heatmap ai_c10 know_c7 (Some [2])) (fst p) (snd p)) `
          {p \<in> set (grid_coords (ai_size ai_c10)). cell know_c7 (fst p) (snd p) = - 1}) = 2 \<and>
   best_counter_gain ai_c10 know_c7 [2] = 1 / 2"
proof -
  have g: "grid_covers (ai_size ai_c10) know_c7"
    by (simp add: grid_covers_def ai_c10_def know_c7_def)
  have ex: "list_ex (\<lambda>p. cell know_c7 (fst p) (snd p) = - 1) (grid_coords (ai_size ai_c10))"
    by code_simp
  from counter_gain_ratio[OF g, of "[2]"] ex
  have "best_counter_gain ai_c10 know_c7 [2] =
     of_int (Max ((\<lambda>p. cell (heatmap ai_c10 know_c7 (Some [2])) (fst p) (snd p)) `
          {p \<in> set (grid_coords (ai_size ai_c10)). cell know_c7 (fst p) (snd p) = - 1})) /
     of_int (grid_total (heatmap ai_c10 know_c7 (Some [2])))"
    by (simp add: total_w)
  then have "of_int (Max ((\<lambda>p. cell (heatmap ai_c10 know_c7 (Some [2])) (fst p) (snd p)) `
          {p \<in> set (grid_coords (ai_size ai_c10)). cell know_c7 (fst p) (snd p) = - 1})) = (2::rat)"
    by (simp add: gain_w total_w)
  then have "Max ((\<lambda>p. cell (heatmap ai_c10 know_c7 (Some [2])) (fst p) (snd p)) `
          {p \<in> set (grid_coords (ai_size ai_c10)). cell know_c7 (fst p) (snd p) = - 1}) = 2"
    by (simp only: of_int_eq_numeral_iff)
  then show ?thesis using g ex gain_w total_w by blast
qed

text \<open>
  C9. The attacker's view shows \<open>HIT\<close> where the board is \<open>HIT\<close>, \<open>MISS\<close> where it is \<open>MISS\<close> and
  Unknown (\<open>-1\<close>) everywhere else; so two boards of the same size with the same \<open>HIT\<close> cells
  and the same \<open>MISS\<close> cells have the same view, wherever their unhit ships lie.
\<close>

theorem knowledge_view_hides_ships:
  "(in_grid (board_size b) r c \<longrightarrow>
      cell (get_ai_knowledge b) r c =
        (if cell (board_grid b) r c = HIT then HIT
         else if cell (board_grid b) r c = MISS then MISS else UNKNOWN)) \<and>
   (board_size b1 = board_size b2 \<and>
    (\<forall>(r, c) \<in> set (grid_coords (board_size b1)).
        (cell (board_grid b1) r c = HIT \<longleftrightarrow> cell (board_grid b2) r c = HIT) \<and>
        (cell (board_grid b1) r c = MISS \<longleftrightarrow> cell (board_grid b2) r c = MISS))
    \<longrightarrow> get_ai_knowledge b1 = get_ai_knowledge b2)"
proof (intro conjI impI)
  assume "in_grid (board_size b) r c"
  then show "cell (get_ai_knowledge b) r c =
        (if cell (board_grid b) r c = HIT then HIT
         else if cell (board_grid b) r c = MISS then MISS else UNKNOWN)"
    by (simp add: get_ai_knowledge_def cell_def[of "map _ _"] in_grid_def py_range_length
        py_range_nth UNKNOWN_def)
next
  assume a: "board_size b1 = board_size b2 \<and>
    (\<forall>(r, c) \<in> set (grid_coords (board_size b1)).
        (cell (board_grid b1) r c = HIT \<longleftrightarrow> cell (board_grid b2) r c = HIT) \<and>
        (cell (board_grid b1) r c = MISS \<longleftrightarrow> cell (board_grid b2) r c = MISS))"
  have "(if cell (board_grid b1) r c = HIT then HIT
         else if cell (board_grid b1) r c = MISS then MISS else - 1) =
        (if cell (board_grid b2) r c = HIT then HIT
         else if cell (board_grid b2) r c = MISS then MISS else - 1)"
    if "r \<in> set (py_range (board_size b1))" "c \<in> set (py_range (board_size b1))" for r c
  proof -
    from that have "(r, c) \<in> set (grid_coords (board_size b1))"
      by (simp add: grid_coords_mem in_grid_def py_range_mem)
    with a show ?thesis by auto
  qed
  then show "get_ai_knowledge b1 = get_ai_knowledge b2"
    unfolding get_ai_knowledge_def conjunct1[OF a, symmetric]
    by (intro map_cong refl)
qed

theorem knowledge_view_hides_ships_witness:
  "in_grid (board_size demo_board) 0 1 \<and>
   cell (board_grid demo_board) 0 1 = SHIP \<and>
   cell (get_ai_knowledge demo_board) 0 1 = UNKNOWN \<and>
   board_grid demo_board \<noteq> board_grid demo_board2 \<and>
   get_ai_knowledge demo_board = get_ai_knowledge demo_board2"
proof -
  have g: "in_grid (board_size demo_board) 0 1"
    by (simp add: demo_board_def in_grid_def)
  have h: "board_size demo_board = board_size demo_board2 \<and>
    (\<forall>(r, c) \<in> set (grid_coords (board_size demo_board)).
        (cell (board_grid demo_board) r c = HIT \<longleftrightarrow> cell (board_grid demo_board2) r c = HIT) \<and>
        (cell (board_grid demo_board) r c = MISS \<longleftrightarrow> cell (board_grid demo_board2) r c = MISS))"
    by (simp add: demo_board_def demo_board2_def grid_coords_def py_range_def
        cell_def cell_consts upto_rec1)
  have v: "cell (board_grid demo_board) 0 1 = SHIP"
    by (simp add: demo_board_def cell_def)
  have d: "board_grid demo_board \<noteq> board_grid demo_board2"
    by (simp add: demo_board_def demo_board2_def cell_consts)
  from knowledge_view_hides_ships[of demo_board 0 1 demo_board demo_board2] g h
  have "cell (get_ai_knowledge demo_board) 0 1 =
        (if cell (board_grid demo_board) 0 1 = HIT then HIT
         else if cell (board_grid demo_board) 0 1 = MISS then MISS else UNKNOWN)"
    and e: "get_ai_knowledge demo_board = get_ai_knowledge demo_board2"
    by blast+
  then have "cell (get_ai_knowledge demo_board) 0 1 = UNKNOWN"
    by (simp add: v cell_consts)
  with g v d e show ?thesis by blast
qed


end
